theory Spec2Isabelle
  imports Complex_Main "HOL-Library.List_Lexorder" "HOL-Library.Char_ord"
    "HOL-Library.Product_Lexorder" "HOL-Library.Monad_Syntax" "HOL-Library.Log_Nat"
begin

section \<open>Python values\<close>

text \<open>
  The scoring functions of \<^verbatim>\<open>thefuzz\<close> receive either \<^verbatim>\<open>None\<close> or a string.  A string is
  a list of characters; a character stands for a code point below 256, compared by its
  code as Python compares strings.  A score is an \<^typ>\<open>int\<close>.  A Python exception is the value
  \<^term>\<open>None\<close> of an \<^typ>\<open>int option\<close>.
\<close>

datatype pyval = PNone | PStr string

section \<open>Python's floats\<close>

text \<open>
  A Python float is an IEEE 754 double: a rational number whose significand has 53 bits.  It
  is held in a \<^typ>\<open>rat\<close>, and every operation that yields a float rounds the exact result to
  the nearest double, a tie going to the even significand: \<open>fl\<close>.  \<open>binade x\<close> is the
  exponent \<open>e\<close> with \<open>2 ^ e \<le> x < 2 ^ (e + 1)\<close>, and the doubles of that binade are the
  multiples of \<open>2 ^ (e - 52)\<close>.  The range of the exponent of a double is not modelled: the
  scores stay between 0 and 100 and the lengths of strings stay far below \<open>2 ^ 1023\<close>.

  \<open>round_half_even\<close> is Python's built-in \<^verbatim>\<open>round\<close> with one argument, which returns the
  nearest integer and the even one at a tie.  A float literal such as \<^verbatim>\<open>.95\<close> denotes
  \<open>fl (95 / 100)\<close>; \<open>float_of_nat\<close> and \<open>float_of_int\<close> convert the integer operand of a
  mixed operation; \<open>fmul\<close> and \<open>fdiv\<close> are \<^verbatim>\<open>*\<close> and \<^verbatim>\<open>/\<close> on floats.
\<close>

definition round_half_even :: "rat \<Rightarrow> int" where
  "round_half_even n =
     (let f = \<lfloor>n\<rfloor>; d = n - of_int f
      in if d < 1 / 2 then f else if 1 / 2 < d then f + 1 else if even f then f else f + 1)"

definition binade :: "rat \<Rightarrow> int" where
  "binade x =
     (case quotient_of x of (p, q) \<Rightarrow>
        (let d = bitlen p - bitlen q in if x < 2 powi d then d - 1 else d))"

definition fl :: "rat \<Rightarrow> rat" where
  "fl x = (if x = 0 then 0
           else (let u = 2 powi (binade \<bar>x\<bar> - 52) in of_int (round_half_even (x / u)) * u))"

definition float_of_nat :: "nat \<Rightarrow> rat" where
  "float_of_nat n = fl (of_nat n)"

definition float_of_int :: "int \<Rightarrow> rat" where
  "float_of_int n = fl (of_int n)"

definition fmul :: "rat \<Rightarrow> rat \<Rightarrow> rat" where
  "fmul x y = fl (x * y)"

definition fdiv :: "rat \<Rightarrow> rat \<Rightarrow> rat" where
  "fdiv x y = fl (x / y)"

section \<open>The sequence aligner: \<^verbatim>\<open>difflib.SequenceMatcher(None, a, b)\<close>\<close>

text \<open>
  \<^verbatim>\<open>_fuzz.py\<close> builds every matcher as \<^verbatim>\<open>SequenceMatcher(None, a, b)\<close>: no junk predicate,
  and \<^verbatim>\<open>autojunk\<close> left at its default \<^verbatim>\<open>True\<close>.  The definitions below follow the methods of
  the standard library's class one by one.

  \<^verbatim>\<open>__chain_b\<close> maps each element of \<^verbatim>\<open>b\<close> to the increasing list of its positions and then,
  when \<^verbatim>\<open>b\<close> has 200 elements or more, deletes the entries of the "popular" elements: those
  that occur more than \<^verbatim>\<open>len(b) // 100 + 1\<close> times.  The junk set stays empty.
\<close>

type_synonym match = "nat \<times> nat \<times> nat"

definition indices_of :: "'a list \<Rightarrow> 'a \<Rightarrow> nat list" where
  "indices_of b elt = filter (\<lambda>i. b ! i = elt) [0..<length b]"

definition is_popular :: "'a list \<Rightarrow> 'a \<Rightarrow> bool" where
  "is_popular b elt \<longleftrightarrow>
     200 \<le> length b \<and> length b div 100 + 1 < length (indices_of b elt)"

definition chain_b :: "'a list \<Rightarrow> 'a \<Rightarrow> nat list" where
  "chain_b b elt = (if is_popular b elt then [] else indices_of b elt)"

text \<open>
  \<^verbatim>\<open>find_longest_match(alo, ahi, blo, bhi)\<close>.  The dictionary \<^verbatim>\<open>j2len\<close> is a function
  from positions to lengths with 0 for an absent key (every stored length is positive, and
  the only read is \<^verbatim>\<open>j2len.get(j-1, 0)\<close>; at \<^verbatim>\<open>j = 0\<close> the key \<^verbatim>\<open>-1\<close> is never present).

  \<^verbatim>\<open>
  besti, bestj, bestsize = alo, blo, 0
  j2len = {}
  for i in range(alo, ahi):
      newj2len = {}
      for j in b2j.get(a[i], nothing):
          if j < blo: continue
          if j >= bhi: break
          k = newj2len[j] = j2len.get(j-1, 0) + 1
          if k > bestsize:
              besti, bestj, bestsize = i-k+1, j-k+1, k
      j2len = newj2len
  \<close>
\<close>

fun scan_row ::
  "nat \<Rightarrow> nat \<Rightarrow> nat \<Rightarrow> (nat \<Rightarrow> nat) \<Rightarrow> nat list \<Rightarrow> (nat \<Rightarrow> nat) \<times> match
    \<Rightarrow> (nat \<Rightarrow> nat) \<times> match" where
  "scan_row blo bhi i j2len [] st = st"
| "scan_row blo bhi i j2len (j # js) (newj2len, (besti, bestj, bestsize)) =
     (if j < blo then scan_row blo bhi i j2len js (newj2len, (besti, bestj, bestsize))
      else if bhi \<le> j then (newj2len, (besti, bestj, bestsize))
      else
        (let k = (if j = 0 then 0 else j2len (j - 1)) + 1
         in scan_row blo bhi i j2len js
              (newj2len(j := k),
               if bestsize < k then (i + 1 - k, j + 1 - k, k)
               else (besti, bestj, bestsize))))"

fun scan_rows ::
  "'a list \<Rightarrow> ('a \<Rightarrow> nat list) \<Rightarrow> nat \<Rightarrow> nat \<Rightarrow> nat list \<Rightarrow> (nat \<Rightarrow> nat) \<times> match
    \<Rightarrow> (nat \<Rightarrow> nat) \<times> match" where
  "scan_rows a b2j blo bhi [] st = st"
| "scan_rows a b2j blo bhi (i # is) (j2len, best) =
     scan_rows a b2j blo bhi is (scan_row blo bhi i j2len (b2j (a ! i)) (\<lambda>_. 0, best))"

text \<open>
  The match is then extended on both sides while the neighbouring elements agree:
  \<^verbatim>\<open>
  while besti > alo and bestj > blo and not isbjunk(b[bestj-1]) and \
        a[besti-1] == b[bestj-1]:
      besti, bestj, bestsize = besti-1, bestj-1, bestsize+1
  while besti+bestsize < ahi and bestj+bestsize < bhi and \
        not isbjunk(b[bestj+bestsize]) and \
        a[besti+bestsize] == b[bestj+bestsize]:
      bestsize += 1
  \<close>
  With an empty junk set \<^verbatim>\<open>isbjunk\<close> is always false, so the two further loops of the method,
  which absorb junk elements only, never run.
\<close>

function extend_left :: "'a list \<Rightarrow> 'a list \<Rightarrow> nat \<Rightarrow> nat \<Rightarrow> match \<Rightarrow> match" where
  "extend_left a b alo blo (besti, bestj, bestsize) =
     (if alo < besti \<and> blo < bestj \<and> a ! (besti - 1) = b ! (bestj - 1)
      then extend_left a b alo blo (besti - 1, bestj - 1, bestsize + 1)
      else (besti, bestj, bestsize))"
  by pat_completeness auto
termination
  by (relation "measure (\<lambda>(a, b, alo, blo, besti, bestj, bestsize). besti)") auto

function extend_right :: "'a list \<Rightarrow> 'a list \<Rightarrow> nat \<Rightarrow> nat \<Rightarrow> match \<Rightarrow> match" where
  "extend_right a b ahi bhi (besti, bestj, bestsize) =
     (if besti + bestsize < ahi \<and> bestj + bestsize < bhi
         \<and> a ! (besti + bestsize) = b ! (bestj + bestsize)
      then extend_right a b ahi bhi (besti, bestj, bestsize + 1)
      else (besti, bestj, bestsize))"
  by pat_completeness auto
termination
  by (relation "measure (\<lambda>(a, b, ahi, bhi, besti, bestj, bestsize). ahi - (besti + bestsize))")
    auto

definition find_longest_match ::
  "'a list \<Rightarrow> 'a list \<Rightarrow> nat \<Rightarrow> nat \<Rightarrow> nat \<Rightarrow> nat \<Rightarrow> match" where
  "find_longest_match a b alo ahi blo bhi =
     extend_right a b ahi bhi
       (extend_left a b alo blo
          (snd (scan_rows a (chain_b b) blo bhi [alo..<ahi] (\<lambda>_. 0, (alo, blo, 0)))))"

text \<open>
  Every result of \<^verbatim>\<open>find_longest_match\<close> lies inside the region it was asked about; an
  empty result is \<^verbatim>\<open>(alo, blo, 0)\<close>.  The worklist of \<^verbatim>\<open>get_matching_blocks\<close> terminates
  because of this.
\<close>
definition region_ok :: "nat \<Rightarrow> nat \<Rightarrow> nat \<Rightarrow> nat \<Rightarrow> match \<Rightarrow> bool" where
  "region_ok alo ahi blo bhi m = (case m of (i, j, k) \<Rightarrow>
     alo \<le> i \<and> blo \<le> j \<and>
     (if k = 0 then i = alo \<and> j = blo else i + k \<le> ahi \<and> j + k \<le> bhi))"

lemma scan_row_bounds:
  assumes "alo \<le> i" "i < ahi"
    and "\<forall>j. j2len j \<le> i - alo \<and> j2len j \<le> j + 1 - blo"
    and "\<forall>j. new j \<le> i + 1 - alo \<and> new j \<le> j + 1 - blo"
    and "region_ok alo ahi blo bhi best"
    and "scan_row blo bhi i j2len js (new, best) = (new', best')"
  shows "(\<forall>j. new' j \<le> i + 1 - alo \<and> new' j \<le> j + 1 - blo) \<and> region_ok alo ahi blo bhi best'"
  using assms
proof (induction js arbitrary: new best)
  case Nil
  then show ?case by simp
next
  case (Cons j js)
  obtain bi bj bs where best: "best = (bi, bj, bs)" by (cases best)
  show ?case
  proof (cases "j < blo")
    case True
    with Cons best show ?thesis by simp
  next
    case nlt: False
    show ?thesis
    proof (cases "bhi \<le> j")
      case True
      with Cons nlt best show ?thesis by simp
    next
      case False
      define k where "k = (if j = 0 then 0 else j2len (j - 1)) + 1"
      have "j2len (j - 1) \<le> i - alo" using Cons.prems(3) by blast
      then have k1: "k \<le> i + 1 - alo" using Cons.prems(1) by (auto simp: k_def)
      have k2: "k \<le> j + 1 - blo"
      proof (cases "j = 0")
        case True then show ?thesis using nlt by (simp add: k_def)
      next
        case False
        have "j2len (j - 1) \<le> (j - 1) + 1 - blo" using Cons.prems(3) by blast
        then show ?thesis using False nlt by (simp add: k_def)
      qed
      have kpos: "0 < k" by (simp add: k_def)
      let ?best2 = "if bs < k then (i + 1 - k, j + 1 - k, k) else (bi, bj, bs)"
      have "scan_row blo bhi i j2len (j # js) (new, (bi, bj, bs))
          = scan_row blo bhi i j2len js (new(j := k), ?best2)"
        using nlt False by (simp add: k_def Let_def)
      then have step: "scan_row blo bhi i j2len js (new(j := k), ?best2) = (new', best')"
        using Cons.prems(6) best by simp
      have new_ok: "\<forall>j'. (new(j := k)) j' \<le> i + 1 - alo \<and> (new(j := k)) j' \<le> j' + 1 - blo"
        using Cons.prems(4) k1 k2 by auto
      have best_ok: "region_ok alo ahi blo bhi ?best2"
        using Cons.prems(5) best k1 k2 kpos nlt False Cons.prems(1,2)
        by (auto simp: region_ok_def)
      show ?thesis
        by (rule Cons.IH[OF Cons.prems(1,2,3) new_ok best_ok step])
    qed
  qed
qed

lemma scan_rows_bounds:
  assumes "alo \<le> m"
    and "\<forall>j. f j \<le> m - alo \<and> f j \<le> j + 1 - blo"
    and "region_ok alo ahi blo bhi best"
  shows "region_ok alo ahi blo bhi (snd (scan_rows a b2j blo bhi [m..<ahi] (f, best)))"
  using assms
proof (induction "ahi - m" arbitrary: m f best)
  case 0
  then show ?case by simp
next
  case (Suc n)
  then have lt: "m < ahi" by simp
  obtain new' best' where r: "scan_row blo bhi m f (b2j (a ! m)) (\<lambda>_. 0, best) = (new', best')"
    by (cases "scan_row blo bhi m f (b2j (a ! m)) (\<lambda>_. 0, best)")
  have row: "(\<forall>j. new' j \<le> m + 1 - alo \<and> new' j \<le> j + 1 - blo) \<and> region_ok alo ahi blo bhi best'"
    by (rule scan_row_bounds[OF Suc.prems(1) lt Suc.prems(2) _ Suc.prems(3) r]) simp
  have "region_ok alo ahi blo bhi (snd (scan_rows a b2j blo bhi [Suc m..<ahi] (new', best')))"
    using Suc.hyps(1)[of "Suc m" new' best'] Suc.hyps(2) Suc.prems(1) row by auto
  then show ?case using lt r by (simp add: upt_conv_Cons)
qed

declare extend_left.simps [simp del] extend_right.simps [simp del]

lemma extend_left_bounds:
  "region_ok alo ahi blo bhi m \<Longrightarrow> region_ok alo ahi blo bhi (extend_left a b alo blo m)"
proof (induction a b alo blo m rule: extend_left.induct)
  case (1 a b alo blo besti bestj bestsize)
  show ?case
  proof (cases "alo < besti \<and> blo < bestj \<and> a ! (besti - 1) = b ! (bestj - 1)")
    case True
    have "region_ok alo ahi blo bhi (besti - 1, bestj - 1, bestsize + 1)"
      using "1.prems" True by (auto simp: region_ok_def split: if_splits)
    then show ?thesis using "1.IH" True by (subst extend_left.simps) simp
  next
    case False
    then show ?thesis using "1.prems" by (subst extend_left.simps) auto
  qed
qed

lemma extend_right_bounds:
  "region_ok alo ahi blo bhi m \<Longrightarrow> region_ok alo ahi blo bhi (extend_right a b ahi bhi m)"
proof (induction a b ahi bhi m rule: extend_right.induct)
  case (1 a b ahi bhi besti bestj bestsize)
  show ?case
  proof (cases "besti + bestsize < ahi \<and> bestj + bestsize < bhi
         \<and> a ! (besti + bestsize) = b ! (bestj + bestsize)")
    case True
    have "region_ok alo ahi blo bhi (besti, bestj, bestsize + 1)"
      using "1.prems" True by (auto simp: region_ok_def split: if_splits)
    then show ?thesis using "1.IH" True by (subst extend_right.simps) simp
  next
    case False
    then show ?thesis using "1.prems" by (subst extend_right.simps) auto
  qed
qed

lemma find_longest_match_bounds:
  "region_ok alo ahi blo bhi (find_longest_match a b alo ahi blo bhi)"
  unfolding find_longest_match_def
  by (intro extend_right_bounds extend_left_bounds scan_rows_bounds) (auto simp: region_ok_def)

text \<open>
  \<^verbatim>\<open>get_matching_blocks\<close> keeps a stack of regions still to be matched:
  \<^verbatim>\<open>
  queue = [(0, la, 0, lb)]
  matching_blocks = []
  while queue:
      alo, ahi, blo, bhi = queue.pop()
      i, j, k = x = self.find_longest_match(alo, ahi, blo, bhi)
      if k:
          matching_blocks.append(x)
          if alo < i and blo < j:
              queue.append((alo, i, blo, j))
          if i+k < ahi and j+k < bhi:
              queue.append((i+k, ahi, j+k, bhi))
  matching_blocks.sort()
  \<close>
  The head of the list \<open>queue\<close> below is the top of the stack, that is the last element of
  the Python list.
\<close>

function blocks_loop ::
  "'a list \<Rightarrow> 'a list \<Rightarrow> (nat \<times> nat \<times> nat \<times> nat) list \<Rightarrow> match list \<Rightarrow> match list" where
  "blocks_loop a b [] matching_blocks = matching_blocks"
| "blocks_loop a b ((alo, ahi, blo, bhi) # queue) matching_blocks =
     (case find_longest_match a b alo ahi blo bhi of (i, j, k) \<Rightarrow>
        if k \<noteq> 0 then
          blocks_loop a b
            ((if i + k < ahi \<and> j + k < bhi then [(i + k, ahi, j + k, bhi)] else []) @
             (if alo < i \<and> blo < j then [(alo, i, blo, j)] else []) @ queue)
            (matching_blocks @ [(i, j, k)])
        else blocks_loop a b queue matching_blocks)"
  by pat_completeness auto
termination
proof (relation "measure (\<lambda>(a, b, queue, acc). sum_list (map (\<lambda>(alo, ahi, blo, bhi). 2 * (ahi - alo) + 1) queue))", goal_cases)
  case 1
  then show ?case by simp
next
  case (2 a b alo ahi blo bhi queue matching_blocks x1 x2 y1 y2)
  have "region_ok alo ahi blo bhi (x1, y1, y2)"
    using find_longest_match_bounds[of alo ahi blo bhi a b] 2 by simp
  then show ?case using 2 by (auto simp: region_ok_def)
next
  case (3 a b alo ahi blo bhi queue matching_blocks x1 x2 y1 y2)
  then show ?case by simp
qed

text \<open>
  Adjacent blocks are then merged and the sentinel \<^verbatim>\<open>(la, lb, 0)\<close> is appended:
  \<^verbatim>\<open>
  i1 = j1 = k1 = 0
  non_adjacent = []
  for i2, j2, k2 in matching_blocks:
      if i1 + k1 == i2 and j1 + k1 == j2:
          k1 += k2
      else:
          if k1:
              non_adjacent.append((i1, j1, k1))
          i1, j1, k1 = i2, j2, k2
  if k1:
      non_adjacent.append((i1, j1, k1))
  non_adjacent.append( (la, lb, 0) )
  \<close>
\<close>

fun collapse :: "match list \<Rightarrow> match \<Rightarrow> match list \<Rightarrow> match list" where
  "collapse [] (i1, j1, k1) non_adjacent =
     (if k1 \<noteq> 0 then non_adjacent @ [(i1, j1, k1)] else non_adjacent)"
| "collapse ((i2, j2, k2) # rest) (i1, j1, k1) non_adjacent =
     (if i1 + k1 = i2 \<and> j1 + k1 = j2 then collapse rest (i1, j1, k1 + k2) non_adjacent
      else collapse rest (i2, j2, k2)
             (if k1 \<noteq> 0 then non_adjacent @ [(i1, j1, k1)] else non_adjacent))"

definition get_matching_blocks :: "'a list \<Rightarrow> 'a list \<Rightarrow> match list" where
  "get_matching_blocks a b =
     (let la = length a; lb = length b;
          matching_blocks = sort (blocks_loop a b [(0, la, 0, lb)] [])
      in collapse matching_blocks (0, 0, 0) [] @ [(la, lb, 0)])"

text \<open>
  \<^verbatim>\<open>ratio()\<close> is \<^verbatim>\<open>2.0 * matches / length\<close>, and \<^verbatim>\<open>1.0\<close> when both sequences are empty.
\<close>

definition sm_ratio :: "'a list \<Rightarrow> 'a list \<Rightarrow> rat" where
  "sm_ratio a b =
     (let matches = sum_list (map (\<lambda>(i, j, k). k) (get_matching_blocks a b));
          len = length a + length b
      in if len \<noteq> 0 then fdiv (fmul 2 (float_of_nat matches)) (float_of_nat len) else 1)"

section \<open>Python's string methods\<close>

text \<open>
  \<^verbatim>\<open>str.split()\<close> without arguments cuts at runs of whitespace and returns no empty token;
  \<^verbatim>\<open>str.strip()\<close> removes whitespace from both ends; \<^verbatim>\<open>sep.join\<close> puts \<^verbatim>\<open>sep\<close> between
  the items.  Whitespace is what \<^verbatim>\<open>str.isspace\<close> accepts among the code points below 256.
  \<^verbatim>\<open>sorted\<close> orders strings by code points, which is the lexicographic order of
  \<^typ>\<open>string\<close>.
\<close>

definition is_space :: "char \<Rightarrow> bool" where
  "is_space c \<longleftrightarrow> (of_char c :: nat) \<in> {9, 10, 11, 12, 13, 28, 29, 30, 31, 32, 133, 160}"

fun split_from :: "string \<Rightarrow> string \<Rightarrow> string list" where
  "split_from tok [] = (if tok = [] then [] else [tok])"
| "split_from tok (c # cs) =
     (if is_space c then (if tok = [] then split_from [] cs else tok # split_from [] cs)
      else split_from (tok @ [c]) cs)"

definition str_split :: "string \<Rightarrow> string list" where
  "str_split s = split_from [] s"

definition str_strip :: "string \<Rightarrow> string" where
  "str_strip s = rev (dropWhile is_space (rev (dropWhile is_space s)))"

fun str_join :: "string \<Rightarrow> string list \<Rightarrow> string" where
  "str_join sep [] = []"
| "str_join sep [x] = x"
| "str_join sep (x # y # ys) = x @ sep @ str_join sep (y # ys)"

definition slice :: "'a list \<Rightarrow> nat \<Rightarrow> nat \<Rightarrow> 'a list" where
  "slice xs lo hi = drop lo (take hi xs)"

section \<open>The helpers of \<^verbatim>\<open>thefuzz.utils\<close>\<close>

text \<open>
  Modelled from the spec: \<^verbatim>\<open>utils.intr\<close>, whose source is not among the files.  The
  spec (section 3) makes a score the fractional value rounded to an integer, half-way cases
  to the even neighbour: \<^verbatim>\<open>int(round(n))\<close>.
\<close>

definition intr :: "rat \<Rightarrow> int" where
  "intr n = round_half_even n"

text \<open>
  Modelled from the spec: \<^verbatim>\<open>utils.validate_string\<close>, whose source is not among the files.
  The spec (section 4.1): a string is valid when its length is greater than zero;
  \<^verbatim>\<open>None\<close> has no length and is not valid.
\<close>

definition validate_string :: "pyval \<Rightarrow> bool" where
  "validate_string s = (case s of PNone \<Rightarrow> False | PStr x \<Rightarrow> 0 < length x)"

text \<open>
  Modelled from the spec: the decorator \<^verbatim>\<open>utils.check_for_none\<close>, whose source is not among
  the files.  The spec (sections 4.1 and 6): a missing argument yields the score 0 and the
  wrapped function is not called.  Past the check both arguments are strings.
\<close>

fun check_for_none ::
  "(string \<Rightarrow> string \<Rightarrow> int option) \<Rightarrow> pyval \<Rightarrow> pyval \<Rightarrow> int option" where
  "check_for_none func PNone s2 = Some 0"
| "check_for_none func (PStr s1) PNone = Some 0"
| "check_for_none func (PStr s1) (PStr s2) = func s1 s2"

text \<open>
  Modelled from the spec: the decorator \<^verbatim>\<open>utils.check_for_equivalence\<close>, whose source is not
  among the files.  The spec (section 4.3): equal inputs score 100 at once.
\<close>

definition check_for_equivalence ::
  "(string \<Rightarrow> string \<Rightarrow> int option) \<Rightarrow> string \<Rightarrow> string \<Rightarrow> int option" where
  "check_for_equivalence func s1 s2 = (if s1 = s2 then Some 100 else func s1 s2)"

text \<open>
  Modelled from the spec: the decorator \<^verbatim>\<open>utils.check_empty_string\<close>, whose source is not
  among the files.  The spec (section 4.3): an empty input scores 0 at once.
\<close>

definition check_empty_string ::
  "(string \<Rightarrow> string \<Rightarrow> int option) \<Rightarrow> string \<Rightarrow> string \<Rightarrow> int option" where
  "check_empty_string func s1 s2 =
     (if length s1 = 0 \<or> length s2 = 0 then Some 0 else func s1 s2)"

text \<open>
  Modelled from the spec: \<^verbatim>\<open>utils.make_type_consistent\<close>, whose source is not among the
  files.  It brings two inputs to one string type (spec, section 9: "type coercion"); two
  strings are returned as they are.
\<close>

definition make_type_consistent :: "string \<Rightarrow> string \<Rightarrow> string \<times> string" where
  "make_type_consistent s1 s2 = (s1, s2)"

text \<open>
  Modelled from the spec: \<^verbatim>\<open>utils.full_process\<close>, whose source is not among the files.  The
  spec (section 4.1): a non-string input is coerced to its display representation (that of
  \<^verbatim>\<open>None\<close> is \<^verbatim>\<open>"None"\<close>); with \<^verbatim>\<open>force_ascii\<close> the characters outside the printable ASCII
  range are dropped first; then every non-alphanumeric character becomes a space, runs of
  whitespace collapse to one space, the ends are trimmed and the letters are lowercased.
  Letters and digits are those of \<^verbatim>\<open>str.isalnum\<close> among the code points below 256.
\<close>

definition display :: "pyval \<Rightarrow> string" where
  "display v = (case v of PNone \<Rightarrow> ''None'' | PStr s \<Rightarrow> s)"

definition is_printable_ascii :: "char \<Rightarrow> bool" where
  "is_printable_ascii c \<longleftrightarrow> 32 \<le> (of_char c :: nat) \<and> (of_char c :: nat) \<le> 126"

definition is_alnum :: "char \<Rightarrow> bool" where
  "is_alnum c =
     (let n = (of_char c :: nat)
      in (48 \<le> n \<and> n \<le> 57) \<or> (65 \<le> n \<and> n \<le> 90) \<or> (97 \<le> n \<and> n \<le> 122)
         \<or> n \<in> {170, 178, 179, 181, 185, 186, 188, 189, 190}
         \<or> (192 \<le> n \<and> n \<le> 214) \<or> (216 \<le> n \<and> n \<le> 246) \<or> 248 \<le> n)"

definition to_lower :: "char \<Rightarrow> char" where
  "to_lower c =
     (let n = (of_char c :: nat)
      in if (65 \<le> n \<and> n \<le> 90) \<or> (192 \<le> n \<and> n \<le> 214) \<or> (216 \<le> n \<and> n \<le> 222)
         then char_of (n + 32) else c)"

fun collapse_ws :: "string \<Rightarrow> string" where
  "collapse_ws [] = []"
| "collapse_ws [c] = [if is_space c then CHR '' '' else c]"
| "collapse_ws (c # d # cs) =
     (if is_space c then
        (if is_space d then collapse_ws (d # cs) else CHR '' '' # collapse_ws (d # cs))
      else c # collapse_ws (d # cs))"

definition full_process :: "pyval \<Rightarrow> bool \<Rightarrow> string" where
  "full_process s force_ascii =
     (let s1 = display s;
          s2 = (if force_ascii then filter is_printable_ascii s1 else s1);
          s3 = map (\<lambda>c. if is_alnum c then c else CHR '' '') s2
      in map to_lower (str_strip (collapse_ws s3)))"

section \<open>The scoring functions of \<^verbatim>\<open>_fuzz.py\<close>\<close>

text \<open>
  \<^verbatim>\<open>fuzz.py\<close> imports them as \<^verbatim>\<open>_ratio\<close>, \<^verbatim>\<open>_partial_ratio\<close>, ... when \<^verbatim>\<open>rapidfuzz\<close> is not
  installed; they carry the prefix \<open>impl_\<close> here.  Their unused parameter \<^verbatim>\<open>processor\<close> is
  left out.  The float literals \<^verbatim>\<open>.995\<close>, \<^verbatim>\<open>.95\<close>, \<^verbatim>\<open>.90\<close>, \<^verbatim>\<open>.6\<close> and \<^verbatim>\<open>1.5\<close> are the doubles nearest
  to them, and the products and quotients are rounded as Python rounds them, one operation
  at a time and from left to right.
\<close>

definition impl_ratio :: "string \<Rightarrow> string \<Rightarrow> int option" where
  "impl_ratio =
     check_for_equivalence (check_empty_string (\<lambda>s1 s2.
       (case make_type_consistent s1 s2 of
          (s1, s2) \<Rightarrow> Some (intr (fmul (float_of_int 100) (sm_ratio s1 s2))))))"

text \<open>
  The loop of \<^verbatim>\<open>partial_ratio\<close> over the blocks; \<^verbatim>\<open>max(scores)\<close> raises \<^verbatim>\<open>ValueError\<close> on an
  empty list.
\<close>

fun partial_loop :: "string \<Rightarrow> string \<Rightarrow> match list \<Rightarrow> rat list \<Rightarrow> int option" where
  "partial_loop shorter longer [] scores =
     (if scores = [] then None
      else Some (intr (fmul (float_of_int 100) (Max (set scores)))))"
| "partial_loop shorter longer ((i, j, k) # blocks) scores =
     (let long_start = (if 0 < int j - int i then j - i else 0);
          long_end = long_start + length shorter;
          long_substr = slice longer long_start long_end;
          r = sm_ratio shorter long_substr
      in if fl (995 / 1000) < r then Some 100
         else partial_loop shorter longer blocks (scores @ [r]))"

definition impl_partial_ratio :: "string \<Rightarrow> string \<Rightarrow> int option" where
  "impl_partial_ratio =
     check_for_equivalence (check_empty_string (\<lambda>s1 s2.
       (case make_type_consistent s1 s2 of
          (s1, s2) \<Rightarrow>
            (let (shorter, longer) = (if length s1 \<le> length s2 then (s1, s2) else (s2, s1));
                 blocks = get_matching_blocks shorter longer
             in partial_loop shorter longer blocks []))))"

definition sort_tokens :: "string \<Rightarrow> string" where
  "sort_tokens s =
     (let tokens = str_split s;
          sorted_string = str_join '' '' (sort tokens)
      in str_strip sorted_string)"

definition token_sort :: "string \<Rightarrow> string \<Rightarrow> bool \<Rightarrow> int option" where
  "token_sort s1 s2 partial =
     (let sorted1 = sort_tokens s1;
          sorted2 = sort_tokens s2
      in if partial then impl_partial_ratio sorted1 sorted2 else impl_ratio sorted1 sorted2)"

definition impl_token_sort_ratio :: "string \<Rightarrow> string \<Rightarrow> int option" where
  "impl_token_sort_ratio s1 s2 = token_sort s1 s2 False"

definition impl_partial_token_sort_ratio :: "string \<Rightarrow> string \<Rightarrow> int option" where
  "impl_partial_token_sort_ratio s1 s2 = token_sort s1 s2 True"

definition token_set :: "string \<Rightarrow> string \<Rightarrow> bool \<Rightarrow> int option" where
  "token_set s1 s2 partial =
     (if s1 = s2 then Some 100
      else if \<not> validate_string (PStr s1) then Some 0
      else if \<not> validate_string (PStr s2) then Some 0
      else
        (let tokens1 = set (str_split s1);
             tokens2 = set (str_split s2);
             intersection = tokens1 \<inter> tokens2;
             diff1to2 = tokens1 - tokens2;
             diff2to1 = tokens2 - tokens1;
             sorted_sect = str_join '' '' (sorted_list_of_set intersection);
             sorted_1to2 = str_join '' '' (sorted_list_of_set diff1to2);
             sorted_2to1 = str_join '' '' (sorted_list_of_set diff2to1);
             combined_1to2 = sorted_sect @ '' '' @ sorted_1to2;
             combined_2to1 = sorted_sect @ '' '' @ sorted_2to1;
             sorted_sect = str_strip sorted_sect;
             combined_1to2 = str_strip combined_1to2;
             combined_2to1 = str_strip combined_2to1;
             ratio_func = (if partial then impl_partial_ratio else impl_ratio)
         in do {
              p1 \<leftarrow> ratio_func sorted_sect combined_1to2;
              p2 \<leftarrow> ratio_func sorted_sect combined_2to1;
              p3 \<leftarrow> ratio_func combined_1to2 combined_2to1;
              Some (Max (set [p1, p2, p3]))
            }))"

definition impl_token_set_ratio :: "string \<Rightarrow> string \<Rightarrow> int option" where
  "impl_token_set_ratio s1 s2 = token_set s1 s2 False"

definition impl_partial_token_set_ratio :: "string \<Rightarrow> string \<Rightarrow> int option" where
  "impl_partial_token_set_ratio s1 s2 = token_set s1 s2 True"

text \<open>
  \<^verbatim>\<open>WRatio\<close>.  Past the two validation guards both arguments are non-empty strings; the
  last case of \<open>impl_WRatio\<close> is the \<^verbatim>\<open>TypeError\<close> that \<^verbatim>\<open>len\<close> would raise on anything else.
  \<^verbatim>\<open>max\<close> compares the integer \<open>base\<close> with the floats by their values, and \<^verbatim>\<open>round\<close> of an
  integer is that integer.
\<close>

definition WRatio_scores :: "string \<Rightarrow> string \<Rightarrow> int option" where
  "WRatio_scores s1 s2 =
     (let try_partial = True;
          unbase_scale = fl (95 / 100);
          partial_scale = fl (90 / 100)
      in do {
           base \<leftarrow> impl_ratio s1 s2;
           let len_ratio =
             fdiv (float_of_nat (max (length s1) (length s2)))
               (float_of_nat (min (length s1) (length s2)));
           let try_partial = (if len_ratio < fl (15 / 10) then False else try_partial);
           let partial_scale = (if 8 < len_ratio then fl (6 / 10) else partial_scale);
           if try_partial then do {
             pr \<leftarrow> impl_partial_ratio s1 s2;
             let partial = fmul (float_of_int pr) partial_scale;
             pts \<leftarrow> impl_partial_token_sort_ratio s1 s2;
             let ptsor = fmul (fmul (float_of_int pts) unbase_scale) partial_scale;
             pte \<leftarrow> impl_partial_token_set_ratio s1 s2;
             let ptser = fmul (fmul (float_of_int pte) unbase_scale) partial_scale;
             Some (intr (Max (set [of_int base, partial, ptsor, ptser])))
           } else do {
             ts \<leftarrow> impl_token_sort_ratio s1 s2;
             let tsor = fmul (float_of_int ts) unbase_scale;
             te \<leftarrow> impl_token_set_ratio s1 s2;
             let tser = fmul (float_of_int te) unbase_scale;
             Some (intr (Max (set [of_int base, tsor, tser])))
           }
         })"

definition impl_WRatio :: "pyval \<Rightarrow> pyval \<Rightarrow> int option" where
  "impl_WRatio s1 s2 =
     (if \<not> validate_string s1 then Some 0
      else if \<not> validate_string s2 then Some 0
      else (case (s1, s2) of
              (PStr x1, PStr x2) \<Rightarrow> WRatio_scores x1 x2
            | _ \<Rightarrow> None))"

section \<open>The public functions of \<^verbatim>\<open>fuzz.py\<close>\<close>

text \<open>
  The flag \<^verbatim>\<open>full_process\<close> is called \<open>do_full_process\<close>, the name \<open>full_process\<close> being
  the helper's.  \<^verbatim>\<open>utils.intr\<close> is applied to the integer that the inner function returns.
\<close>

definition ratio :: "pyval \<Rightarrow> pyval \<Rightarrow> int option" where
  "ratio = check_for_none (\<lambda>s1 s2. do { n \<leftarrow> impl_ratio s1 s2; Some (intr (of_int n)) })"

definition partial_ratio :: "pyval \<Rightarrow> pyval \<Rightarrow> int option" where
  "partial_ratio =
     check_for_none (\<lambda>s1 s2. do { n \<leftarrow> impl_partial_ratio s1 s2; Some (intr (of_int n)) })"

definition token_sort_ratio :: "pyval \<Rightarrow> pyval \<Rightarrow> bool \<Rightarrow> bool \<Rightarrow> int option" where
  "token_sort_ratio s1 s2 force_ascii do_full_process =
     check_for_none (\<lambda>s1 s2.
       (let p1 = (if do_full_process then full_process (PStr s1) force_ascii else s1);
            p2 = (if do_full_process then full_process (PStr s2) force_ascii else s2)
        in do { n \<leftarrow> impl_token_sort_ratio p1 p2; Some (intr (of_int n)) })) s1 s2"

definition partial_token_sort_ratio :: "pyval \<Rightarrow> pyval \<Rightarrow> bool \<Rightarrow> bool \<Rightarrow> int option" where
  "partial_token_sort_ratio s1 s2 force_ascii do_full_process =
     check_for_none (\<lambda>s1 s2.
       (let p1 = (if do_full_process then full_process (PStr s1) force_ascii else s1);
            p2 = (if do_full_process then full_process (PStr s2) force_ascii else s2)
        in do { n \<leftarrow> impl_partial_token_sort_ratio p1 p2; Some (intr (of_int n)) })) s1 s2"

definition token_set_ratio :: "pyval \<Rightarrow> pyval \<Rightarrow> bool \<Rightarrow> bool \<Rightarrow> int option" where
  "token_set_ratio s1 s2 force_ascii do_full_process =
     check_for_none (\<lambda>s1 s2.
       (let p1 = (if do_full_process then full_process (PStr s1) force_ascii else s1);
            p2 = (if do_full_process then full_process (PStr s2) force_ascii else s2)
        in do { n \<leftarrow> impl_token_set_ratio p1 p2; Some (intr (of_int n)) })) s1 s2"

definition partial_token_set_ratio :: "pyval \<Rightarrow> pyval \<Rightarrow> bool \<Rightarrow> bool \<Rightarrow> int option" where
  "partial_token_set_ratio s1 s2 force_ascii do_full_process =
     check_for_none (\<lambda>s1 s2.
       (let p1 = (if do_full_process then full_process (PStr s1) force_ascii else s1);
            p2 = (if do_full_process then full_process (PStr s2) force_ascii else s2)
        in do { n \<leftarrow> impl_partial_token_set_ratio p1 p2; Some (intr (of_int n)) })) s1 s2"

definition QRatio :: "pyval \<Rightarrow> pyval \<Rightarrow> bool \<Rightarrow> bool \<Rightarrow> int option" where
  "QRatio s1 s2 force_ascii do_full_process =
     (let p1 = (if do_full_process then PStr (full_process s1 force_ascii) else s1);
          p2 = (if do_full_process then PStr (full_process s2 force_ascii) else s2)
      in if \<not> validate_string p1 then Some 0
         else if \<not> validate_string p2 then Some 0
         else ratio p1 p2)"

definition UQRatio :: "pyval \<Rightarrow> pyval \<Rightarrow> bool \<Rightarrow> int option" where
  "UQRatio s1 s2 do_full_process = QRatio s1 s2 False do_full_process"

definition WRatio :: "pyval \<Rightarrow> pyval \<Rightarrow> bool \<Rightarrow> bool \<Rightarrow> int option" where
  "WRatio s1 s2 force_ascii do_full_process =
     (let p1 = (if do_full_process then PStr (full_process s1 force_ascii) else s1);
          p2 = (if do_full_process then PStr (full_process s2 force_ascii) else s2)
      in do { n \<leftarrow> impl_WRatio p1 p2; Some (intr (of_int n)) })"

definition UWRatio :: "pyval \<Rightarrow> pyval \<Rightarrow> bool \<Rightarrow> int option" where
  "UWRatio s1 s2 do_full_process = WRatio s1 s2 False do_full_process"

section \<open>Facts about floats\<close>

text \<open>
  Rounding to the nearest double keeps the order, fixes the doubles and commutes with doubling.
  So the quotient \<^verbatim>\<open>2.0 * matches / length\<close> of the aligner stays between 0 and 1 whenever the
  matched length is at most half of the total length, and it is exactly 1 when it is half.
\<close>

lemma round_half_even_of_int: "round_half_even (of_int k) = k"
  by (simp add: round_half_even_def)

lemma round_half_even_floor: "\<lfloor>x\<rfloor> \<le> round_half_even x \<and> round_half_even x \<le> \<lfloor>x\<rfloor> + 1"
  by (simp add: round_half_even_def Let_def)

lemma round_half_even_mono: "x \<le> y \<Longrightarrow> round_half_even x \<le> round_half_even y"
proof -
  assume le: "x \<le> y"
  then have fl: "\<lfloor>x\<rfloor> \<le> \<lfloor>y\<rfloor>" by (rule floor_mono)
  show ?thesis
  proof (cases "\<lfloor>x\<rfloor> = \<lfloor>y\<rfloor>")
    case True
    then show ?thesis using le by (auto simp: round_half_even_def Let_def)
  next
    case False
    then have "\<lfloor>x\<rfloor> + 1 \<le> \<lfloor>y\<rfloor>" using fl by simp
    then show ?thesis using round_half_even_floor[of x] round_half_even_floor[of y] by linarith
  qed
qed

lemma two_powi_less_cancel: "(2::rat) powi a < 2 powi b \<Longrightarrow> a < b"
  using power_int_increasing[of b a "2::rat"] by (cases "a < b") auto

lemma two_powi_le_cancel: "(2::rat) powi a \<le> 2 powi b \<Longrightarrow> a \<le> b"
  using power_int_strict_increasing[of b a "2::rat"] by (cases "a \<le> b") auto

lemma two_powi_split: "(2::rat) powi (a + b) = 2 powi a * 2 powi b"
  by (simp add: power_int_add)

lemma two_powi_pos: "0 < (2::rat) powi a"
  by (simp add: zero_less_power_int)

lemma ulp_scale:
  "(2::rat) powi e = 2 ^ 52 * 2 powi (e - 52)" "(2::rat) powi (e + 1) = 2 ^ 53 * 2 powi (e - 52)"
proof -
  have "e = 52 + (e - 52)" "e + 1 = 53 + (e - 52)" by simp_all
  then have "(2::rat) powi e = 2 powi 52 * 2 powi (e - 52)"
    "(2::rat) powi (e + 1) = 2 powi 53 * 2 powi (e - 52)"
    by (metis two_powi_split)+
  then show "(2::rat) powi e = 2 ^ 52 * 2 powi (e - 52)"
    "(2::rat) powi (e + 1) = 2 ^ 53 * 2 powi (e - 52)"
    by simp_all
qed

lemma binade_bounds:
  assumes "0 < x"
  shows "2 powi binade x \<le> x" and "x < 2 powi (binade x + 1)"
proof -
  obtain p q where pq: "quotient_of x = (p, q)" by (cases "quotient_of x")
  have q: "0 < q" using pq by (rule quotient_of_denom_pos)
  have x: "x = of_int p / of_int q" using pq by (rule quotient_of_div)
  have p: "0 < p" using assms q unfolding x by (simp add: zero_less_divide_iff)
  define a where "a = nat (bitlen p)"
  define b where "b = nat (bitlen q)"
  have bp2: "p < 2 ^ a" and bq2: "q < 2 ^ b"
    using bitlen_bounds[OF p] bitlen_bounds[OF q] by (simp_all add: a_def b_def)
  have a: "0 < a" using bp2 p by (cases a) auto
  have b: "0 < b" using bq2 q by (cases b) auto
  have "nat (bitlen p - 1) = a - 1" "nat (bitlen q - 1) = b - 1"
    using a b by (simp_all add: a_def b_def)
  then have bp1: "2 ^ (a - 1) \<le> p" and bq1: "2 ^ (b - 1) \<le> q"
    using bitlen_bounds[OF p] bitlen_bounds[OF q] by simp_all
  note bp = bp1 bp2 and bq = bq1 bq2
  have ia: "bitlen p = int a" and ib: "bitlen q = int b"
    by (simp_all add: a_def b_def bitlen_nonneg)
  have rp: "(2::rat) ^ (a - 1) \<le> of_int p" "of_int p < (2::rat) ^ a"
    using bp by (metis of_int_le_iff of_int_numeral of_int_power,
                 metis of_int_less_iff of_int_numeral of_int_power)
  have rq: "(2::rat) ^ (b - 1) \<le> of_int q" "of_int q < (2::rat) ^ b"
    using bq by (metis of_int_le_iff of_int_numeral of_int_power,
                 metis of_int_less_iff of_int_numeral of_int_power)
  have qpos: "(0::rat) < of_int q" using q by simp
  have lo: "(2::rat) ^ (a - 1) / 2 ^ b < x"
    unfolding x by (rule frac_less2) (use rp rq qpos in auto)
  have hi: "x < (2::rat) ^ a / 2 ^ (b - 1)"
    unfolding x by (rule frac_less) (use rp rq p in auto)
  define d where "d = int a - int b"
  have lo': "(2::rat) powi (d - 1) < x"
  proof -
    have "d - 1 = int (a - 1) - int b" using a by (simp add: d_def)
    then have "(2::rat) powi (d - 1) = 2 ^ (a - 1) / 2 ^ b"
      by (simp add: power_int_diff)
    then show ?thesis using lo by simp
  qed
  have hi': "x < (2::rat) powi (d + 1)"
  proof -
    have "d + 1 = int a - int (b - 1)" using b by (simp add: d_def)
    then have "(2::rat) powi (d + 1) = 2 ^ a / 2 ^ (b - 1)"
      by (simp add: power_int_diff)
    then show ?thesis using hi by simp
  qed
  have bin: "binade x = (if x < 2 powi d then d - 1 else d)"
    by (simp add: binade_def pq ia ib d_def Let_def)
  show "2 powi binade x \<le> x" using lo' by (simp add: bin)
  show "x < 2 powi (binade x + 1)" using hi' by (simp add: bin)
qed

lemma binade_unique:
  assumes "0 < x" "2 powi e \<le> x" "x < 2 powi (e + 1)"
  shows "binade x = e"
proof -
  have "(2::rat) powi binade x < 2 powi (e + 1)"
    using binade_bounds(1)[OF assms(1)] assms(3) by simp
  then have 1: "binade x < e + 1" by (rule two_powi_less_cancel)
  have "(2::rat) powi e < 2 powi (binade x + 1)"
    using binade_bounds(2)[OF assms(1)] assms(2) by simp
  then have 2: "e < binade x + 1" by (rule two_powi_less_cancel)
  show ?thesis using 1 2 by simp
qed

lemma binade_mono:
  assumes "0 < x" "x \<le> y"
  shows "binade x \<le> binade y"
proof -
  have y: "0 < y" using assms by simp
  have "(2::rat) powi binade x < 2 powi (binade y + 1)"
    using binade_bounds(1)[OF assms(1)] binade_bounds(2)[OF y] assms(2) by simp
  then show ?thesis using two_powi_less_cancel by fastforce
qed

text \<open>The significand of a positive number: an integer of 53 bits.\<close>

lemma fl_pos:
  assumes "0 < x"
  defines "u \<equiv> 2 powi (binade x - 52)"
  shows "fl x = of_int (round_half_even (x / u)) * u"
    and "2 ^ 52 \<le> round_half_even (x / u)" and "round_half_even (x / u) \<le> 2 ^ 53"
proof -
  have u: "0 < u" by (simp add: u_def two_powi_pos)
  show "fl x = of_int (round_half_even (x / u)) * u"
    using assms(1) by (simp add: fl_def u_def Let_def)
  have e: "2 powi binade x = 2 ^ 52 * u" "2 powi (binade x + 1) = 2 ^ 53 * u"
    unfolding u_def by (rule ulp_scale)+
  have "2 ^ 52 * u \<le> x" "x < 2 ^ 53 * u"
    using binade_bounds[OF assms(1)] unfolding e by simp_all
  then have "of_int (2 ^ 52) \<le> x / u" "x / u \<le> of_int (2 ^ 53)"
    using u by (simp_all add: pos_le_divide_eq pos_divide_le_eq)
  then have "round_half_even (of_int (2 ^ 52)) \<le> round_half_even (x / u)" "round_half_even (x / u) \<le> round_half_even (of_int (2 ^ 53))"
    by (simp_all only: round_half_even_mono)
  then show "2 ^ 52 \<le> round_half_even (x / u)" "round_half_even (x / u) \<le> 2 ^ 53"
    unfolding round_half_even_of_int by simp_all
qed

lemma fl_pos_bounds:
  assumes "0 < x"
  shows "2 powi binade x \<le> fl x" and "fl x \<le> 2 powi (binade x + 1)"
proof -
  define u :: rat where "u = 2 powi (binade x - 52)"
  have u: "0 < u" by (simp add: u_def two_powi_pos)
  have e: "2 powi binade x = 2 ^ 52 * u" "2 powi (binade x + 1) = 2 ^ 53 * u"
    unfolding u_def by (rule ulp_scale)+
  note f = fl_pos[OF assms, folded u_def]
  have "(of_int (2 ^ 52) :: rat) \<le> of_int (round_half_even (x / u))"
       "(of_int (round_half_even (x / u)) :: rat) \<le> of_int (2 ^ 53)"
    using f(2,3) by (simp_all only: of_int_le_iff)
  then have "2 ^ 52 * u \<le> of_int (round_half_even (x / u)) * u" "of_int (round_half_even (x / u)) * u \<le> 2 ^ 53 * u"
    using u by simp_all
  then show "2 powi binade x \<le> fl x" "fl x \<le> 2 powi (binade x + 1)"
    unfolding e f(1) by simp_all
qed

lemma fl_nonneg: "0 \<le> x \<Longrightarrow> 0 \<le> fl x"
proof (cases "x = 0")
  case True
  then show ?thesis by (simp add: fl_def)
next
  case False
  assume "0 \<le> x"
  then have "0 < x" using False by simp
  from fl_pos_bounds(1)[OF this] two_powi_pos[of "binade x"] show ?thesis by linarith
qed

lemma fl_mono:
  assumes "0 \<le> x" "x \<le> y"
  shows "fl x \<le> fl y"
proof (cases "x = 0")
  case True
  then show ?thesis using fl_nonneg[of y] assms by (simp add: fl_def)
next
  case False
  then have x: "0 < x" and y: "0 < y" using assms by simp_all
  have le: "binade x \<le> binade y" using x assms(2) by (rule binade_mono)
  show ?thesis
  proof (cases "binade x = binade y")
    case True
    define u :: rat where "u = 2 powi (binade x - 52)"
    have u: "0 < u" by (simp add: u_def two_powi_pos)
    have "x / u \<le> y / u" using assms(2) u by (simp add: divide_right_mono)
    then have "round_half_even (x / u) \<le> round_half_even (y / u)" by (rule round_half_even_mono)
    then have "(of_int (round_half_even (x / u)) :: rat) * u \<le> of_int (round_half_even (y / u)) * u"
      using u by simp
    then show ?thesis
      using fl_pos(1)[OF x] fl_pos(1)[OF y] unfolding True[symmetric] u_def by simp
  next
    case False
    then have "binade x + 1 \<le> binade y" using le by simp
    then have "(2::rat) powi (binade x + 1) \<le> 2 powi binade y"
      by (rule power_int_increasing) simp
    then show ?thesis using fl_pos_bounds(2)[OF x] fl_pos_bounds(1)[OF y] by linarith
  qed
qed

lemma fl_exact:
  assumes "0 < k" "k \<le> 2 ^ 53"
  shows "fl (of_int k * 2 powi m) = of_int k * 2 powi m"
proof -
  define x :: rat where "x = of_int k * 2 powi m"
  have x: "0 < x" using assms(1) by (simp add: x_def two_powi_pos)
  define e where "e = binade x"
  define u :: rat where "u = 2 powi (e - 52)"
  have u: "0 < u" by (simp add: u_def two_powi_pos)
  have kr: "(of_int k :: rat) \<le> 2 ^ 53" using assms(2)
    by (metis of_int_le_iff of_int_numeral of_int_power)
  have "x \<le> 2 ^ 53 * 2 powi m" unfolding x_def using kr two_powi_pos[of m] by simp
  also have "\<dots> = 2 powi (53 + m)" using two_powi_split[of 53 m] by simp
  finally have "(2::rat) powi e \<le> 2 powi (53 + m)"
    using binade_bounds(1)[OF x] unfolding e_def by simp
  then have em: "e \<le> 53 + m" by (rule two_powi_le_cancel)
  have f: "fl x = of_int (round_half_even (x / u)) * u"
    using fl_pos(1)[OF x] unfolding u_def e_def by simp
  have "\<exists>n. x / u = of_int n"
  proof (cases "e = 53 + m")
    case True
    have "2 powi (53 + m) \<le> x" using binade_bounds(1)[OF x] unfolding e_def[symmetric] True .
    then have "(2::rat) ^ 53 * 2 powi m \<le> of_int k * 2 powi m"
      using two_powi_split[of 53 m] unfolding x_def by simp
    then have "(2::rat) ^ 53 \<le> of_int k" using two_powi_pos[of m] by simp
    then have k: "(of_int k :: rat) = 2 ^ 53" using kr by simp
    have "u = 2 * 2 powi m" using two_powi_split[of 1 m] by (simp add: u_def True)
    then have "x / u = 2 ^ 52" using two_powi_pos[of m] by (simp add: x_def k)
    then have "x / u = of_int (2 ^ 52)" by simp
    then show ?thesis by blast
  next
    case False
    then have "0 \<le> m - e + 52" using em by simp
    then obtain n where n: "m - e + 52 = int n" using nonneg_int_cases by blast
    have "2 powi m = 2 powi (m - e + 52) * u"
      using two_powi_split[of "m - e + 52" "e - 52"] by (simp add: u_def)
    then have "x / u = of_int k * 2 powi (m - e + 52)" using u by (simp add: x_def)
    also have "\<dots> = of_int (k * 2 ^ n)" by (simp add: n)
    finally show ?thesis by blast
  qed
  then obtain n where n: "x / u = of_int n" by blast
  have "fl x = x" unfolding f n round_half_even_of_int using n u by (simp add: field_simps)
  then show ?thesis by (simp add: x_def)
qed

lemma fl_idem:
  assumes "0 \<le> x"
  shows "fl (fl x) = fl x"
proof (cases "x = 0")
  case True
  then show ?thesis by (simp add: fl_def)
next
  case False
  then have x: "0 < x" using assms by simp
  note f = fl_pos[OF x]
  have "0 < round_half_even (x / 2 powi (binade x - 52))" using f(2) by (simp add: order.strict_trans2)
  from fl_exact[OF this f(3)] show ?thesis unfolding f(1) .
qed

lemma binade_double: "0 < x \<Longrightarrow> binade (2 * x) = binade x + 1"
proof -
  assume x: "0 < x"
  have "2 powi (binade x + 1) \<le> 2 * x" "2 * x < 2 powi (binade x + 1 + 1)"
    using binade_bounds[OF x] by (simp_all add: power_int_add)
  then show ?thesis using x by (intro binade_unique) simp_all
qed

lemma fl_double: "0 \<le> x \<Longrightarrow> fl (2 * x) = 2 * fl x"
proof (cases "x = 0")
  case True
  then show ?thesis by (simp add: fl_def)
next
  case False
  assume "0 \<le> x"
  then have x: "0 < x" using False by simp
  then have x2: "0 < 2 * x" by simp
  have u: "(2::rat) powi (binade x + 1 - 52) = 2 * 2 powi (binade x - 52)"
    using two_powi_split[of 1 "binade x - 52"] by simp
  show ?thesis
    unfolding fl_pos(1)[OF x2] fl_pos(1)[OF x] binade_double[OF x] u by simp
qed

lemma fl_1: "fl 1 = 1"
  by code_simp

lemma fl_100: "fl 100 = 100"
  by code_simp

lemma float_of_nat_nonneg: "0 \<le> float_of_nat n"
  by (simp add: float_of_nat_def fl_nonneg)

lemma float_of_nat_pos: "0 < n \<Longrightarrow> 1 \<le> float_of_nat n"
  using fl_mono[of 1 "of_nat n"] by (simp add: float_of_nat_def fl_1)

lemma twice_float_of_nat: "fmul 2 (float_of_nat n) = float_of_nat (2 * n)"
  using fl_double[of "of_nat n"] fl_idem[of "2 * of_nat n"]
  by (simp add: fmul_def float_of_nat_def)

lemma float_ratio_bounds:
  assumes "2 * m \<le> t" "0 < t"
  shows "0 \<le> fdiv (fmul 2 (float_of_nat m)) (float_of_nat t)"
    and "fdiv (fmul 2 (float_of_nat m)) (float_of_nat t) \<le> 1"
proof -
  have t: "1 \<le> float_of_nat t" using assms(2) by (rule float_of_nat_pos)
  have a: "0 \<le> float_of_nat (2 * m)" by (rule float_of_nat_nonneg)
  have "(of_nat (2 * m) :: rat) \<le> of_nat t" using assms(1) by (simp only: of_nat_le_iff)
  then have le: "float_of_nat (2 * m) \<le> float_of_nat t"
    unfolding float_of_nat_def by (intro fl_mono) simp_all
  have q: "0 \<le> float_of_nat (2 * m) / float_of_nat t" "float_of_nat (2 * m) / float_of_nat t \<le> 1"
    using a t le by (simp_all add: divide_le_eq_1)
  show "0 \<le> fdiv (fmul 2 (float_of_nat m)) (float_of_nat t)"
    unfolding twice_float_of_nat fdiv_def using q(1) by (rule fl_nonneg)
  show "fdiv (fmul 2 (float_of_nat m)) (float_of_nat t) \<le> 1"
    unfolding twice_float_of_nat fdiv_def using fl_mono[OF q] by (simp add: fl_1)
qed

lemma float_ratio_one:
  assumes "0 < n"
  shows "fdiv (fmul 2 (float_of_nat n)) (float_of_nat (n + n)) = 1"
proof -
  have "1 \<le> float_of_nat (2 * n)" using assms by (intro float_of_nat_pos) simp
  then have "float_of_nat (2 * n) / float_of_nat (2 * n) = 1" by simp
  then show ?thesis
    unfolding twice_float_of_nat fdiv_def mult_2[symmetric] by (simp add: fl_1)
qed

lemma float_of_int_100: "float_of_int 100 = 100"
  by code_simp

lemma float_of_int_bounds:
  assumes "0 \<le> v" "v \<le> 100"
  shows "0 \<le> float_of_int v" and "float_of_int v \<le> 100"
proof -
  have "(0::rat) \<le> of_int v" "(of_int v :: rat) \<le> 100" using assms by simp_all
  then show "0 \<le> float_of_int v" "float_of_int v \<le> 100"
    unfolding float_of_int_def using fl_mono[of "of_int v" 100] by (simp_all add: fl_nonneg fl_100)
qed

lemma fmul_bounds:
  assumes "0 \<le> y" "y \<le> 100" "0 \<le> c" "c \<le> 1"
  shows "0 \<le> fmul y c" and "fmul y c \<le> 100"
proof -
  have "y * c \<le> y * 1" using assms by (intro mult_left_mono) auto
  then have "0 \<le> y * c" "y * c \<le> 100" using assms by simp_all
  then show "0 \<le> fmul y c" "fmul y c \<le> 100"
    unfolding fmul_def using fl_mono[of "y * c" 100] by (simp_all add: fl_nonneg fl_100)
qed

text \<open>
  The rounding is that of the floats: 23 matched characters out of 80 make the ratio
  \<^verbatim>\<open>0.575\<close>, a hundred times which is the float \<^verbatim>\<open>57.49999999999999\<close>, and the score is 57.
\<close>

lemma ratio_rounds_the_float:
  "impl_ratio (replicate 23 CHR ''a'' @ replicate 17 CHR ''b'')
     (replicate 23 CHR ''a'' @ replicate 17 CHR ''c'') = Some 57"
  by code_simp

lemma threshold_below_one: "fl (995 / 1000) < 1"
  by code_simp

lemma float_literal_bounds:
  "0 \<le> fl (95 / 100)" "fl (95 / 100) \<le> 1" "0 \<le> fl (90 / 100)" "fl (90 / 100) \<le> 1"
  "0 \<le> fl (6 / 10)" "fl (6 / 10) \<le> 1"
  using fl_mono[of "95 / 100" 1] fl_mono[of "90 / 100" 1] fl_mono[of "6 / 10" 1]
  by (simp_all add: fl_nonneg fl_1)

section \<open>\<^verbatim>\<open>partial_ratio\<close>: the loop over the matching blocks\<close>

text \<open>
  The description of \<^verbatim>\<open>partial_ratio\<close> in the spec (section 4.3), written out: one candidate
  per block \<open>(i, j, k)\<close>, the ratio of \<open>shorter\<close> against the window of \<open>longer\<close> that starts
  at \<open>max (j - i) 0\<close> and has the length of \<open>shorter\<close>, clipped to the end of \<open>longer\<close> as a
  Python slice is; 100 as soon as a candidate exceeds 0.995, else the largest candidate as a
  percentage.  The list of blocks always ends with the terminating block of length zero, which
  yields a candidate as the others do.
\<close>

definition candidate_window :: "string \<Rightarrow> string \<Rightarrow> match \<Rightarrow> string" where
  "candidate_window shorter longer blk =
     (case blk of (i, j, k) \<Rightarrow>
        (let start = nat (max (int j - int i) 0) in slice longer start (start + length shorter)))"


lemma get_matching_blocks_sentinel:
  "get_matching_blocks a b \<noteq> [] \<and> last (get_matching_blocks a b) = (length a, length b, 0)"
  by (simp add: get_matching_blocks_def Let_def)

lemma partial_loop_total:
  "blocks \<noteq> [] \<or> scores \<noteq> [] \<Longrightarrow> \<exists>v. partial_loop shorter longer blocks scores = Some v"
proof (induction blocks arbitrary: scores)
  case Nil
  then show ?case by simp
next
  case (Cons blk blocks)
  obtain i j k where blk: "blk = (i, j, k)" by (cases blk)
  show ?case using Cons.IH[of "scores @ [r]" for r] unfolding blk
    by (simp add: Let_def)
qed

lemma partial_loop_spec:
  "partial_loop shorter longer blocks scores =
     (let candidates = map (\<lambda>blk. sm_ratio shorter (candidate_window shorter longer blk)) blocks
      in if list_ex (\<lambda>r. fl (995 / 1000) < r) candidates then Some 100
         else if scores @ candidates = [] then None
         else Some (intr (fmul (float_of_int 100) (Max (set (scores @ candidates))))))"
proof (induction blocks arbitrary: scores)
  case Nil
  then show ?case by simp
next
  case (Cons blk blocks)
  obtain i j k where blk: "blk = (i, j, k)" by (cases blk)
  have w: "slice longer (if 0 < int j - int i then j - i else 0)
             ((if 0 < int j - int i then j - i else 0) + length shorter)
           = candidate_window shorter longer (i, j, k)"
    by (auto simp: candidate_window_def Let_def max_def nat_diff_distrib)
  have step: "partial_loop shorter longer ((i, j, k) # blocks) scores =
      (if fl (995 / 1000) < sm_ratio shorter (candidate_window shorter longer (i, j, k))
       then Some 100
       else partial_loop shorter longer blocks
              (scores @ [sm_ratio shorter (candidate_window shorter longer (i, j, k))]))"
    by (simp only: partial_loop.simps Let_def w)
  show ?case unfolding blk step
    by (simp add: Let_def Cons.IH)
qed

lemma impl_partial_ratio_body:
  assumes "s1 \<noteq> []" "s2 \<noteq> []" "s1 \<noteq> s2"
  shows "impl_partial_ratio s1 s2 =
           partial_loop (if length s1 \<le> length s2 then s1 else s2)
             (if length s1 \<le> length s2 then s2 else s1)
             (get_matching_blocks (if length s1 \<le> length s2 then s1 else s2)
                (if length s1 \<le> length s2 then s2 else s1)) []"
  using assms
  by (simp add: impl_partial_ratio_def check_for_equivalence_def check_empty_string_def
      make_type_consistent_def Let_def)

text \<open>
  Claim C10.  For non-empty, non-equal strings the pure-Python \<^verbatim>\<open>partial_ratio\<close> never fails
  at its final \<^verbatim>\<open>max(scores)\<close>: the block list of the aligner is never empty (it ends with
  the sentinel of length zero), every block adds a score or returns 100 at once, and so the
  function returns a score.
\<close>

theorem partial_ratio_never_fails:
  assumes "s1 \<noteq> []" "s2 \<noteq> []" "s1 \<noteq> s2"
  shows "get_matching_blocks (if length s1 \<le> length s2 then s1 else s2)
           (if length s1 \<le> length s2 then s2 else s1) \<noteq> []
         \<and> (\<exists>v. impl_partial_ratio s1 s2 = Some v)"
  using get_matching_blocks_sentinel partial_loop_total
  unfolding impl_partial_ratio_body[OF assms] by blast

theorem partial_ratio_never_fails_witness:
  "get_matching_blocks ''ab'' ''xay'' \<noteq> [] \<and> (\<exists>v. impl_partial_ratio ''ab'' ''xay'' = Some v)"
  using partial_ratio_never_fails[of "''ab''" "''xay''"] by simp




section \<open>Facts about the string helpers\<close>

text \<open>
  Tokens are non-empty and free of whitespace, so joining them with single spaces leaves nothing
  for \<^verbatim>\<open>strip\<close> to remove; a non-empty result of \<open>full_process\<close> holds a character that is
  not whitespace.
\<close>

lemma intr_of_int [simp]: "intr (of_int n) = n"
  by (simp add: intr_def round_half_even_of_int)

lemma split_from_tokens:
  assumes "\<forall>c\<in>set tok. \<not> is_space c" and "t \<in> set (split_from tok cs)"
  shows "t \<noteq> [] \<and> (\<forall>c\<in>set t. \<not> is_space c)"
  using assms
proof (induction tok cs rule: split_from.induct)
  case (1 tok)
  then show ?case by (cases "tok = []") simp_all
next
  case (2 tok c cs)
  show ?case
  proof (cases "is_space c")
    case sp: True
    show ?thesis
    proof (cases "tok = []")
      case True
      with sp "2.prems" have "t \<in> set (split_from [] cs)" by simp
      with "2.IH"(1)[OF sp True] show ?thesis by simp
    next
      case False
      with sp "2.prems" have "t = tok \<or> t \<in> set (split_from [] cs)" by simp
      then show ?thesis
      proof
        assume "t = tok"
        with False "2.prems"(1) show ?thesis by simp
      next
        assume "t \<in> set (split_from [] cs)"
        with "2.IH"(2)[OF sp False] show ?thesis by simp
      qed
    qed
  next
    case False
    with "2.prems" have "t \<in> set (split_from (tok @ [c]) cs)" by simp
    moreover have "\<forall>d\<in>set (tok @ [c]). \<not> is_space d" using False "2.prems"(1) by simp
    ultimately show ?thesis using "2.IH"(3)[OF False] by blast
  qed
qed

lemma str_split_tokens:
  "t \<in> set (str_split s) \<Longrightarrow> t \<noteq> [] \<and> (\<forall>c\<in>set t. \<not> is_space c)"
  unfolding str_split_def using split_from_tokens[of "[]" t s] by simp

lemma split_from_nonempty:
  "tok \<noteq> [] \<or> (\<exists>c\<in>set cs. \<not> is_space c) \<Longrightarrow> split_from tok cs \<noteq> []"
  by (induction tok cs rule: split_from.induct) auto

lemma str_split_nonempty: "\<exists>c\<in>set s. \<not> is_space c \<Longrightarrow> str_split s \<noteq> []"
  unfolding str_split_def using split_from_nonempty[of "[]" s] by simp

lemma str_split_Nil [simp]: "str_split [] = []"
  by (simp add: str_split_def)

lemma str_strip_Nil [simp]: "str_strip [] = []"
  by (simp add: str_strip_def)

lemma str_strip_id:
  "s \<noteq> [] \<Longrightarrow> \<not> is_space (hd s) \<Longrightarrow> \<not> is_space (last s) \<Longrightarrow> str_strip s = s"
proof -
  assume a: "s \<noteq> []" "\<not> is_space (hd s)" "\<not> is_space (last s)"
  then have 1: "dropWhile is_space s = s" by (cases s) auto
  have "rev s \<noteq> []" "\<not> is_space (hd (rev s))" using a by (auto simp: hd_rev)
  then have 2: "dropWhile is_space (rev s) = rev s" by (cases "rev s") auto
  show ?thesis by (simp add: str_strip_def 1 2)
qed

lemma str_join_ends:
  assumes "ts \<noteq> []" and "\<forall>t\<in>set ts. t \<noteq> [] \<and> (\<forall>c\<in>set t. \<not> is_space c)"
  shows "str_join sep ts \<noteq> [] \<and> \<not> is_space (hd (str_join sep ts))
         \<and> \<not> is_space (last (str_join sep ts))"
  using assms
proof (induction sep ts rule: str_join.induct)
  case (1 sep)
  then show ?case by simp
next
  case (2 sep x)
  then show ?case by (cases x) (auto simp: last_in_set)
next
  case (3 sep x y ys)
  then have IH: "str_join sep (y # ys) \<noteq> [] \<and> \<not> is_space (last (str_join sep (y # ys)))"
    by simp
  from 3 have x: "x \<noteq> []" "\<not> is_space (hd x)" by (auto simp: hd_in_set)
  show ?case using IH x by (simp add: hd_append)
qed

lemma str_strip_join:
  assumes "\<forall>t\<in>set ts. t \<noteq> [] \<and> (\<forall>c\<in>set t. \<not> is_space c)"
  shows "str_strip (str_join sep ts) = str_join sep ts"
proof (cases "ts = []")
  case True
  then show ?thesis by simp
next
  case False
  then show ?thesis using str_join_ends[OF False assms] by (simp add: str_strip_id)
qed

lemma sort_tokens_eq: "sort_tokens s = str_join '' '' (sort (str_split s))"
  unfolding sort_tokens_def Let_def
  by (rule str_strip_join) (simp add: str_split_tokens)

lemma sort_tokens_Nil [simp]: "sort_tokens [] = []"
  by (simp add: sort_tokens_eq)

lemma sort_tokens_nonempty:
  assumes "\<exists>c\<in>set s. \<not> is_space c"
  shows "sort_tokens s \<noteq> []"
proof -
  have "sort (str_split s) \<noteq> []" using str_split_nonempty[OF assms] by (metis length_sort length_0_conv)
  moreover have "\<forall>t\<in>set (sort (str_split s)). t \<noteq> [] \<and> (\<forall>c\<in>set t. \<not> is_space c)"
    by (simp add: str_split_tokens)
  ultimately show ?thesis using str_join_ends unfolding sort_tokens_eq by blast
qed

lemma str_strip_last: "str_strip s \<noteq> [] \<Longrightarrow> \<not> is_space (last (str_strip s))"
proof -
  assume a: "str_strip s \<noteq> []"
  let ?y = "dropWhile is_space (rev (dropWhile is_space s))"
  have "?y \<noteq> []" using a by (simp add: str_strip_def)
  then have "\<not> is_space (hd ?y)" by (rule hd_dropWhile)
  then show ?thesis using \<open>?y \<noteq> []\<close> by (simp add: str_strip_def last_rev)
qed

lemma lower_shift_not_space:
  fixes n :: nat
  assumes "n \<notin> {9, 10, 11, 12, 13, 28, 29, 30, 31, 32, 133, 160}"
  shows "(if (65 \<le> n \<and> n \<le> 90) \<or> (192 \<le> n \<and> n \<le> 214) \<or> (216 \<le> n \<and> n \<le> 222)
          then n + 32 else n) \<notin> {9, 10, 11, 12, 13, 28, 29, 30, 31, 32, 133, 160}"
  using assms by (cases "(65 \<le> n \<and> n \<le> 90) \<or> (192 \<le> n \<and> n \<le> 214) \<or> (216 \<le> n \<and> n \<le> 222)") auto

lemma of_char_to_lower:
  "(of_char (to_lower c) :: nat) =
     (if (65 \<le> (of_char c :: nat) \<and> (of_char c :: nat) \<le> 90)
         \<or> (192 \<le> (of_char c :: nat) \<and> (of_char c :: nat) \<le> 214)
         \<or> (216 \<le> (of_char c :: nat) \<and> (of_char c :: nat) \<le> 222)
      then of_char c + 32 else of_char c)"
proof -
  define n where "n = (of_char c :: nat)"
  have m: "(n + 32) mod 256 = n + 32" if "n \<le> 222" using that by simp
  have "to_lower c = (if (65 \<le> n \<and> n \<le> 90) \<or> (192 \<le> n \<and> n \<le> 214) \<or> (216 \<le> n \<and> n \<le> 222)
      then char_of (n + 32) else c)"
    by (simp only: to_lower_def Let_def n_def)
  then have "(of_char (to_lower c) :: nat) =
     (if (65 \<le> n \<and> n \<le> 90) \<or> (192 \<le> n \<and> n \<le> 214) \<or> (216 \<le> n \<and> n \<le> 222)
      then (n + 32) mod 256 else n)"
    by (simp only: if_distrib[of of_char] of_char_of n_def)
  also have "\<dots> = (if (65 \<le> n \<and> n \<le> 90) \<or> (192 \<le> n \<and> n \<le> 214) \<or> (216 \<le> n \<and> n \<le> 222)
      then n + 32 else n)"
    using m by auto
  finally show ?thesis by (simp only: n_def)
qed

lemma to_lower_not_space: "\<not> is_space c \<Longrightarrow> \<not> is_space (to_lower c)"
  unfolding is_space_def of_char_to_lower by (rule lower_shift_not_space)

lemma full_process_has_letter:
  assumes "full_process s force_ascii \<noteq> []"
  shows "\<exists>c\<in>set (full_process s force_ascii). \<not> is_space c"
proof -
  obtain x where fp: "full_process s force_ascii = map to_lower (str_strip x)"
    by (simp add: full_process_def Let_def)
  with assms have ne: "str_strip x \<noteq> []" by simp
  have "\<not> is_space (to_lower (last (str_strip x)))"
    using str_strip_last[OF ne] to_lower_not_space by blast
  moreover have "to_lower (last (str_strip x)) \<in> set (full_process s force_ascii)"
    using ne unfolding fp by (simp add: last_in_set)
  ultimately show ?thesis by blast
qed

lemma full_process_None: "full_process PNone force_ascii = ''none''"
proof (cases force_ascii)
  case True
  have "full_process PNone True = ''none''" by code_simp
  with True show ?thesis by simp
next
  case False
  have "full_process PNone False = ''none''" by code_simp
  with False show ?thesis by simp
qed

section \<open>The short circuits of \<^verbatim>\<open>ratio\<close> and \<^verbatim>\<open>partial_ratio\<close>\<close>

text \<open>
  The two decorators decide before the decorated body is looked at: the results below hold for
  every wrapped function \<open>func\<close>, so the aligner plays no part in them.
\<close>

lemma guards_equal: "check_for_equivalence (check_empty_string func) s s = Some 100"
  by (simp add: check_for_equivalence_def)

lemma guards_empty:
  "s1 \<noteq> s2 \<Longrightarrow> s1 = [] \<or> s2 = [] \<Longrightarrow>
   check_for_equivalence (check_empty_string func) s1 s2 = Some 0"
  by (auto simp: check_for_equivalence_def check_empty_string_def)

lemma impl_ratio_same: "impl_ratio s s = Some 100"
  unfolding impl_ratio_def by (rule guards_equal)

lemma impl_partial_ratio_same: "impl_partial_ratio s s = Some 100"
  unfolding impl_partial_ratio_def by (rule guards_equal)

lemma impl_ratio_empty: "s1 \<noteq> s2 \<Longrightarrow> s1 = [] \<or> s2 = [] \<Longrightarrow> impl_ratio s1 s2 = Some 0"
  unfolding impl_ratio_def by (rule guards_empty)

lemma impl_partial_ratio_empty:
  "s1 \<noteq> s2 \<Longrightarrow> s1 = [] \<or> s2 = [] \<Longrightarrow> impl_partial_ratio s1 s2 = Some 0"
  unfolding impl_partial_ratio_def by (rule guards_empty)

text \<open>
  Claim C5.  For \<^verbatim>\<open>ratio\<close> and \<^verbatim>\<open>partial_ratio\<close>: identical inputs, two empty strings included,
  score 100; otherwise an empty input scores 0.  The equivalence check comes before the
  empty-string check, so two empty strings score 100 and one empty with one non-empty string
  scores 0.
\<close>

theorem ratio_short_circuits:
  "(s1 = s2 \<longrightarrow> impl_ratio s1 s2 = Some 100 \<and> impl_partial_ratio s1 s2 = Some 100)
   \<and> (s1 \<noteq> s2 \<and> (s1 = [] \<or> s2 = []) \<longrightarrow>
        impl_ratio s1 s2 = Some 0 \<and> impl_partial_ratio s1 s2 = Some 0)"
  using impl_ratio_same impl_partial_ratio_same impl_ratio_empty impl_partial_ratio_empty
  by blast

theorem ratio_short_circuits_witness:
  "impl_ratio [] [] = Some 100 \<and> impl_partial_ratio [] [] = Some 100
   \<and> impl_ratio ''ab'' ''ab'' = Some 100 \<and> impl_partial_ratio ''ab'' ''ab'' = Some 100
   \<and> impl_ratio [] ''ab'' = Some 0 \<and> impl_partial_ratio [] ''ab'' = Some 0
   \<and> impl_ratio ''ab'' [] = Some 0 \<and> impl_partial_ratio ''ab'' [] = Some 0"
  using ratio_short_circuits[of "[]" "[]"] ratio_short_circuits[of "''ab''" "''ab''"]
    ratio_short_circuits[of "[]" "''ab''"] ratio_short_circuits[of "''ab''" "[]"]
  by simp

text \<open>
  Where the guard against \<^verbatim>\<open>None\<close> is in force: the six functions decorated with
  \<^verbatim>\<open>check_for_none\<close> return 0 for a \<^verbatim>\<open>None\<close> argument in either position, whatever the flags,
  and \<^verbatim>\<open>QRatio\<close> and \<^verbatim>\<open>WRatio\<close> do so when \<^verbatim>\<open>full_process\<close> is off, through \<^verbatim>\<open>validate_string\<close>.
\<close>

lemma check_for_none_right: "check_for_none func s PNone = Some 0"
  by (cases s) simp_all

lemma none_argument_guarded:
  "ratio PNone s = Some 0" "ratio s PNone = Some 0"
  "partial_ratio PNone s = Some 0" "partial_ratio s PNone = Some 0"
  "token_sort_ratio PNone s fa fp = Some 0" "token_sort_ratio s PNone fa fp = Some 0"
  "partial_token_sort_ratio PNone s fa fp = Some 0" "partial_token_sort_ratio s PNone fa fp = Some 0"
  "token_set_ratio PNone s fa fp = Some 0" "token_set_ratio s PNone fa fp = Some 0"
  "partial_token_set_ratio PNone s fa fp = Some 0" "partial_token_set_ratio s PNone fa fp = Some 0"
  "QRatio PNone s fa False = Some 0" "QRatio s PNone fa False = Some 0"
  "WRatio PNone s fa False = Some 0" "WRatio s PNone fa False = Some 0"
  by (simp_all add: ratio_def partial_ratio_def token_sort_ratio_def partial_token_sort_ratio_def
      token_set_ratio_def partial_token_set_ratio_def QRatio_def WRatio_def impl_WRatio_def
      validate_string_def check_for_none_right)

text \<open>
  Claim C3 says that every public scoring function returns 0 when an argument is \<^verbatim>\<open>None\<close>.
  \<^verbatim>\<open>QRatio\<close> and \<^verbatim>\<open>WRatio\<close> are not decorated with \<^verbatim>\<open>check_for_none\<close> as the six other functions
  are: with the default flags they preprocess \<^verbatim>\<open>None\<close> to the string \<^verbatim>\<open>"none"\<close>, which is valid, and
  compare it with the other argument.  Against \<^verbatim>\<open>"none"\<close> the score is 100.
\<close>

theorem QRatio_none_scores_100:
  "QRatio PNone (PStr ''none'') True True = Some 100
   \<and> WRatio PNone (PStr ''none'') True True = Some 100"
  by code_simp

text \<open>
  Claim C4 says that the token functions return 0 when a processed string is empty, also
  when both are.  \<^verbatim>\<open>_token_set\<close> tests \<^verbatim>\<open>s1 == s2\<close> before it validates, and \<^verbatim>\<open>_token_sort\<close>
  reaches the equivalence check of \<^verbatim>\<open>ratio\<close> with two empty strings: two inputs that both
  normalize to the empty string score 100.
\<close>

theorem token_ratios_both_empty_score_100:
  "token_set_ratio (PStr '''') (PStr '''') True True = Some 100
   \<and> token_sort_ratio (PStr ''!'') (PStr ''?'') True True = Some 100"
  by code_simp

section \<open>Empty strings in the combination functions\<close>

lemma token_sort_same: "sort_tokens p1 = sort_tokens p2 \<Longrightarrow> token_sort p1 p2 partial = Some 100"
  by (simp add: token_sort_def Let_def impl_ratio_same impl_partial_ratio_same)

lemma token_sort_one_empty:
  "sort_tokens p1 \<noteq> sort_tokens p2 \<Longrightarrow> sort_tokens p1 = [] \<or> sort_tokens p2 = [] \<Longrightarrow>
   token_sort p1 p2 partial = Some 0"
  by (simp add: token_sort_def Let_def impl_ratio_empty impl_partial_ratio_empty)

lemma token_set_same: "token_set p p partial = Some 100"
  by (simp add: token_set_def)

lemma token_set_one_empty:
  "p1 \<noteq> p2 \<Longrightarrow> p1 = [] \<or> p2 = [] \<Longrightarrow> token_set p1 p2 partial = Some 0"
  by (auto simp: token_set_def validate_string_def)

lemma sort_tokens_full_process:
  "full_process s fa \<noteq> [] \<Longrightarrow> sort_tokens (full_process s fa) \<noteq> []"
  by (rule sort_tokens_nonempty) (rule full_process_has_letter)

lemma token_functions_both_empty:
  assumes "full_process (PStr a) fa = []" "full_process (PStr b) fa = []"
  shows "token_sort_ratio (PStr a) (PStr b) fa True = Some 100"
    and "partial_token_sort_ratio (PStr a) (PStr b) fa True = Some 100"
    and "token_set_ratio (PStr a) (PStr b) fa True = Some 100"
    and "partial_token_set_ratio (PStr a) (PStr b) fa True = Some 100"
  using assms
  by (simp_all add: token_sort_ratio_def partial_token_sort_ratio_def token_set_ratio_def
      partial_token_set_ratio_def impl_token_sort_ratio_def impl_partial_token_sort_ratio_def
      impl_token_set_ratio_def impl_partial_token_set_ratio_def token_sort_same token_set_same)

lemma token_functions_one_empty:
  assumes "(full_process (PStr a) fa = []) \<noteq> (full_process (PStr b) fa = [])"
  shows "token_sort_ratio (PStr a) (PStr b) fa True = Some 0"
    and "partial_token_sort_ratio (PStr a) (PStr b) fa True = Some 0"
    and "token_set_ratio (PStr a) (PStr b) fa True = Some 0"
    and "partial_token_set_ratio (PStr a) (PStr b) fa True = Some 0"
proof -
  let ?p1 = "full_process (PStr a) fa" and ?p2 = "full_process (PStr b) fa"
  have ne: "?p1 \<noteq> ?p2" and one: "?p1 = [] \<or> ?p2 = []" using assms by auto
  have "sort_tokens ?p1 \<noteq> sort_tokens ?p2 \<and> (sort_tokens ?p1 = [] \<or> sort_tokens ?p2 = [])"
    using assms sort_tokens_full_process[of "PStr a" fa] sort_tokens_full_process[of "PStr b" fa]
    by (cases "?p1 = []") auto
  then have ts: "token_sort ?p1 ?p2 partial = Some 0" for partial
    using token_sort_one_empty by blast
  have te: "token_set ?p1 ?p2 partial = Some 0" for partial
    using token_set_one_empty[OF ne one] .
  show "token_sort_ratio (PStr a) (PStr b) fa True = Some 0"
    by (simp add: token_sort_ratio_def impl_token_sort_ratio_def ts)
  show "partial_token_sort_ratio (PStr a) (PStr b) fa True = Some 0"
    by (simp add: partial_token_sort_ratio_def impl_partial_token_sort_ratio_def ts)
  show "token_set_ratio (PStr a) (PStr b) fa True = Some 0"
    by (simp add: token_set_ratio_def impl_token_set_ratio_def te)
  show "partial_token_set_ratio (PStr a) (PStr b) fa True = Some 0"
    by (simp add: partial_token_set_ratio_def impl_partial_token_set_ratio_def te)
qed

lemma QRatio_WRatio_empty:
  assumes "full_process s1 fa = [] \<or> full_process s2 fa = []"
  shows "QRatio s1 s2 fa True = Some 0" and "WRatio s1 s2 fa True = Some 0"
  using assms
  by (auto simp: QRatio_def WRatio_def impl_WRatio_def validate_string_def Let_def)

text \<open>
  Claim C4, amended.  With \<^verbatim>\<open>full_process\<close> on: \<^verbatim>\<open>QRatio\<close> and \<^verbatim>\<open>WRatio\<close> return 0 when either
  processed string is empty; the four token functions return 0 when exactly one processed
  string is empty, and 100 when both are, the equivalence check coming first.  None of these
  results depends on the aligner: they come from the validation guards and the two decorators.
\<close>

theorem combination_functions_on_empty:
  "(full_process (PStr a) fa = [] \<or> full_process (PStr b) fa = [] \<longrightarrow>
      QRatio (PStr a) (PStr b) fa True = Some 0 \<and> WRatio (PStr a) (PStr b) fa True = Some 0)
   \<and> ((full_process (PStr a) fa = []) \<noteq> (full_process (PStr b) fa = []) \<longrightarrow>
      token_sort_ratio (PStr a) (PStr b) fa True = Some 0
      \<and> partial_token_sort_ratio (PStr a) (PStr b) fa True = Some 0
      \<and> token_set_ratio (PStr a) (PStr b) fa True = Some 0
      \<and> partial_token_set_ratio (PStr a) (PStr b) fa True = Some 0)
   \<and> (full_process (PStr a) fa = [] \<and> full_process (PStr b) fa = [] \<longrightarrow>
      token_sort_ratio (PStr a) (PStr b) fa True = Some 100
      \<and> partial_token_sort_ratio (PStr a) (PStr b) fa True = Some 100
      \<and> token_set_ratio (PStr a) (PStr b) fa True = Some 100
      \<and> partial_token_set_ratio (PStr a) (PStr b) fa True = Some 100)"
  using QRatio_WRatio_empty[of "PStr a" fa "PStr b"] token_functions_one_empty[of a fa b]
    token_functions_both_empty[of a fa b]
  by blast

theorem combination_functions_on_empty_witness:
  "full_process (PStr ''!?'') True = [] \<and> full_process (PStr ''New York'') True = ''new york''
   \<and> QRatio (PStr ''!?'') (PStr ''New York'') True True = Some 0
   \<and> WRatio (PStr ''!?'') (PStr ''New York'') True True = Some 0
   \<and> token_sort_ratio (PStr ''!?'') (PStr ''New York'') True True = Some 0
   \<and> partial_token_sort_ratio (PStr ''!?'') (PStr ''New York'') True True = Some 0
   \<and> token_set_ratio (PStr ''!?'') (PStr ''New York'') True True = Some 0
   \<and> partial_token_set_ratio (PStr ''!?'') (PStr ''New York'') True True = Some 0"
proof -
  have e: "full_process (PStr ''!?'') True = []" by code_simp
  have n: "full_process (PStr ''New York'') True = ''new york''" by code_simp
  show ?thesis
    using combination_functions_on_empty[of "''!?''" True "''New York''"] e n by simp
qed

section \<open>The matched length is bounded by the shorter sequence\<close>

text \<open>
  Every region on the stack can still contribute at most the smaller of its two sides, and a
  block found in a region leaves two regions whose sides add up to what remains.  Sorting and
  merging adjacent blocks keep the total.  Hence the ratio lies between 0 and 1.
\<close>

definition block_sizes :: "match list \<Rightarrow> nat" where
  "block_sizes ms = sum_list (map (\<lambda>(i, j, k). k) ms)"

definition capacity :: "(nat \<times> nat \<times> nat \<times> nat) list \<Rightarrow> nat" where
  "capacity queue = sum_list (map (\<lambda>(alo, ahi, blo, bhi). min (ahi - alo) (bhi - blo)) queue)"

lemma block_sizes_simps [simp]:
  "block_sizes [] = 0"
  "block_sizes ((i, j, k) # ms) = k + block_sizes ms"
  "block_sizes (ms @ ns) = block_sizes ms + block_sizes ns"
  by (simp_all add: block_sizes_def)

lemma capacity_simps [simp]:
  "capacity [] = 0"
  "capacity ((alo, ahi, blo, bhi) # queue) = min (ahi - alo) (bhi - blo) + capacity queue"
  "capacity (q1 @ q2) = capacity q1 + capacity q2"
  by (simp_all add: capacity_def)

lemma blocks_loop_sizes:
  "block_sizes (blocks_loop a b queue acc) \<le> block_sizes acc + capacity queue"
proof (induction a b queue acc rule: blocks_loop.induct)
  case (1 a b matching_blocks)
  then show ?case by simp
next
  case (2 a b alo ahi blo bhi queue matching_blocks)
  obtain i j k where m: "find_longest_match a b alo ahi blo bhi = (i, j, k)"
    by (cases "find_longest_match a b alo ahi blo bhi")
  have ok: "region_ok alo ahi blo bhi (i, j, k)"
    using find_longest_match_bounds[of alo ahi blo bhi a b] m by simp
  show ?case
  proof (cases "k = 0")
    case True
    then show ?thesis using "2.IH"(2)[OF m[symmetric] refl] m by simp
  next
    case False
    let ?q = "(if i + k < ahi \<and> j + k < bhi then [(i + k, ahi, j + k, bhi)] else []) @
              (if alo < i \<and> blo < j then [(alo, i, blo, j)] else []) @ queue"
    have cap: "k + capacity ?q \<le> min (ahi - alo) (bhi - blo) + capacity queue"
      using ok False by (auto simp: region_ok_def)
    have "block_sizes (blocks_loop a b ?q (matching_blocks @ [(i, j, k)]))
            \<le> block_sizes (matching_blocks @ [(i, j, k)]) + capacity ?q"
      using "2.IH"(1)[OF m[symmetric] refl False] by simp
    also have "\<dots> \<le> block_sizes matching_blocks + (min (ahi - alo) (bhi - blo) + capacity queue)"
      using cap by simp
    finally show ?thesis using m False by simp
  qed
qed

lemma block_sizes_insort: "block_sizes (insort m ms) = block_sizes [m] + block_sizes ms"
  by (induction ms) (auto simp: block_sizes_def)

lemma block_sizes_Cons: "block_sizes (m # ms) = block_sizes [m] + block_sizes ms"
  by (simp add: block_sizes_def)

lemma block_sizes_sort: "block_sizes (sort ms) = block_sizes ms"
proof (induction ms)
  case Nil
  then show ?case by simp
next
  case (Cons m ms)
  have "block_sizes (sort (m # ms)) = block_sizes [m] + block_sizes (sort ms)"
    by (simp add: block_sizes_insort)
  then show ?case using Cons block_sizes_Cons[of m ms] by simp
qed

lemma block_sizes_collapse:
  "block_sizes (collapse ms (i1, j1, k1) acc) = block_sizes acc + k1 + block_sizes ms"
  by (induction ms "(i1, j1, k1)" acc arbitrary: i1 j1 k1 rule: collapse.induct) auto

lemma get_matching_blocks_sizes:
  "block_sizes (get_matching_blocks a b) \<le> min (length a) (length b)"
  using blocks_loop_sizes[of a b "[(0, length a, 0, length b)]" "[]"]
  by (simp add: get_matching_blocks_def Let_def block_sizes_collapse block_sizes_sort)

lemma sm_ratio_bounds: "0 \<le> sm_ratio a b \<and> sm_ratio a b \<le> 1"
proof (cases "length a + length b = 0")
  case True
  then show ?thesis by (simp add: sm_ratio_def)
next
  case False
  let ?m = "block_sizes (get_matching_blocks a b)"
  have m: "2 * ?m \<le> length a + length b" using get_matching_blocks_sizes[of a b] by simp
  have t: "0 < length a + length b" using False by simp
  have "sm_ratio a b = fdiv (fmul 2 (float_of_nat ?m)) (float_of_nat (length a + length b))"
    using False by (simp add: sm_ratio_def Let_def block_sizes_def)
  then show ?thesis using float_ratio_bounds[OF m t] by simp
qed

section \<open>Scores lie between 0 and 100\<close>

text \<open>
  \<open>is_score r\<close>: the call returned, and what it returned is an integer from 0 to 100.
\<close>

definition is_score :: "int option \<Rightarrow> bool" where
  "is_score r = (case r of None \<Rightarrow> False | Some v \<Rightarrow> 0 \<le> v \<and> v \<le> 100)"

lemma is_score_Some [simp]: "is_score (Some v) \<longleftrightarrow> 0 \<le> v \<and> v \<le> 100"
  by (simp add: is_score_def)

lemma is_scoreE: "is_score r \<Longrightarrow> \<exists>v. r = Some v \<and> 0 \<le> v \<and> v \<le> 100"
  by (cases r) (simp_all add: is_score_def)

lemma intr_bounds:
  assumes "0 \<le> x" "x \<le> 100"
  shows "0 \<le> intr x \<and> intr x \<le> 100"
proof -
  have "round_half_even 0 \<le> round_half_even x" using assms(1) by (rule round_half_even_mono)
  moreover have "round_half_even x \<le> round_half_even 100"
    using assms(2) by (rule round_half_even_mono)
  moreover have "round_half_even 0 = 0" "round_half_even 100 = 100"
    using round_half_even_of_int[of 0] round_half_even_of_int[of 100] by simp_all
  ultimately show ?thesis by (simp add: intr_def)
qed

lemma Max_list_bounds:
  fixes xs :: "'a::linorder list"
  assumes "xs \<noteq> []" "\<forall>x\<in>set xs. lo \<le> x \<and> x \<le> hi"
  shows "lo \<le> Max (set xs) \<and> Max (set xs) \<le> hi"
proof -
  have "Max (set xs) \<in> set xs" using assms(1) by (intro Max_in) auto
  with assms(2) show ?thesis by blast
qed

lemma score_of_ratio:
  assumes "0 \<le> r" "r \<le> 1"
  shows "0 \<le> intr (fmul (float_of_int 100) r) \<and> intr (fmul (float_of_int 100) r) \<le> 100"
proof -
  have "0 \<le> 100 * r" "100 * r \<le> 100" using assms by simp_all
  then have "0 \<le> fl (100 * r)" "fl (100 * r) \<le> 100"
    using fl_mono[of "100 * r" 100] by (simp_all add: fl_nonneg fl_100)
  then show ?thesis unfolding float_of_int_100 fmul_def by (rule intr_bounds)
qed

lemma impl_ratio_score: "is_score (impl_ratio s1 s2)"
  using score_of_ratio[OF sm_ratio_bounds[of s1 s2, THEN conjunct1] sm_ratio_bounds[of s1 s2, THEN conjunct2]]
  by (simp add: impl_ratio_def check_for_equivalence_def check_empty_string_def
      make_type_consistent_def)

lemma partial_loop_score:
  assumes "\<forall>r\<in>set scores. 0 \<le> r \<and> r \<le> 1" "blocks \<noteq> [] \<or> scores \<noteq> []"
  shows "is_score (partial_loop shorter longer blocks scores)"
proof -
  let ?cs = "map (\<lambda>blk. sm_ratio shorter (candidate_window shorter longer blk)) blocks"
  have ne: "scores @ ?cs \<noteq> []" using assms(2) by auto
  have "\<forall>r\<in>set (scores @ ?cs). 0 \<le> r \<and> r \<le> 1"
    using assms(1) sm_ratio_bounds by auto
  then have "0 \<le> Max (set (scores @ ?cs)) \<and> Max (set (scores @ ?cs)) \<le> 1"
    using ne by (intro Max_list_bounds) blast+
  then have b: "is_score (Some (intr (fmul (float_of_int 100) (Max (set (scores @ ?cs))))))"
    using score_of_ratio unfolding is_score_Some by blast
  have eq: "partial_loop shorter longer blocks scores =
      (if list_ex (\<lambda>r. fl (995 / 1000) < r) ?cs then Some 100
       else Some (intr (fmul (float_of_int 100) (Max (set (scores @ ?cs))))))"
    unfolding partial_loop_spec Let_def using ne by (simp only: if_False)
  show ?thesis
  proof (cases "list_ex (\<lambda>r. fl (995 / 1000) < r) ?cs")
    case True
    then show ?thesis unfolding eq by (simp only: if_True is_score_Some) simp
  next
    case False
    then show ?thesis unfolding eq using b by (simp only: if_False)
  qed
qed

lemma impl_partial_ratio_score: "is_score (impl_partial_ratio s1 s2)"
proof (cases "s1 = s2 \<or> s1 = [] \<or> s2 = []")
  case True
  then show ?thesis
    by (auto simp: impl_partial_ratio_def check_for_equivalence_def check_empty_string_def)
next
  case False
  then have "impl_partial_ratio s1 s2 =
           partial_loop (if length s1 \<le> length s2 then s1 else s2)
             (if length s1 \<le> length s2 then s2 else s1)
             (get_matching_blocks (if length s1 \<le> length s2 then s1 else s2)
                (if length s1 \<le> length s2 then s2 else s1)) []"
    by (intro impl_partial_ratio_body) auto
  moreover have "is_score (partial_loop sh lo (get_matching_blocks sh lo) [])" for sh lo
    using get_matching_blocks_sentinel[of sh lo] by (intro partial_loop_score) auto
  ultimately show ?thesis by (simp only:)
qed

lemma token_sort_score: "is_score (token_sort s1 s2 partial)"
  by (simp add: token_sort_def Let_def impl_ratio_score impl_partial_ratio_score)

lemma max3_score:
  assumes "is_score r1" "is_score r2" "is_score r3"
  shows "is_score (do { p1 \<leftarrow> r1; p2 \<leftarrow> r2; p3 \<leftarrow> r3; Some (Max (set [p1, p2, p3])) })"
proof -
  obtain v1 v2 v3 where "r1 = Some v1" "r2 = Some v2" "r3 = Some v3"
    and "0 \<le> v1 \<and> v1 \<le> 100" "0 \<le> v2 \<and> v2 \<le> 100" "0 \<le> v3 \<and> v3 \<le> 100"
    using assms by (meson is_scoreE)
  then show ?thesis by (auto simp: le_max_iff_disj)
qed

lemma is_score_if:
  "(c \<Longrightarrow> is_score x) \<Longrightarrow> (\<not> c \<Longrightarrow> is_score y) \<Longrightarrow> is_score (if c then x else y)"
  by simp

lemma token_set_score: "is_score (token_set s1 s2 partial)"
proof -
  have r: "is_score ((if partial then impl_partial_ratio else impl_ratio) x y)" for x y
    by (simp add: impl_ratio_score impl_partial_ratio_score)
  show ?thesis
    unfolding token_set_def Let_def
    by (intro is_score_if max3_score r) simp_all
qed

lemma scaled_bounds:
  assumes "0 \<le> y \<and> y \<le> 100" "0 \<le> c" "c \<le> 1"
  shows "0 \<le> fmul y c \<and> fmul y c \<le> 100"
  using fmul_bounds[of y c] assms by simp

lemma WRatio_scores_score: "is_score (WRatio_scores s1 s2)"
proof -
  obtain base where base: "impl_ratio s1 s2 = Some base" "0 \<le> base \<and> base \<le> 100"
    using is_scoreE[OF impl_ratio_score] by blast
  obtain pr where pr: "impl_partial_ratio s1 s2 = Some pr" "0 \<le> pr \<and> pr \<le> 100"
    using is_scoreE[OF impl_partial_ratio_score] by blast
  obtain pts where pts: "impl_partial_token_sort_ratio s1 s2 = Some pts" "0 \<le> pts \<and> pts \<le> 100"
    unfolding impl_partial_token_sort_ratio_def using is_scoreE[OF token_sort_score] by blast
  obtain pte where pte: "impl_partial_token_set_ratio s1 s2 = Some pte" "0 \<le> pte \<and> pte \<le> 100"
    unfolding impl_partial_token_set_ratio_def using is_scoreE[OF token_set_score] by blast
  obtain ts where ts: "impl_token_sort_ratio s1 s2 = Some ts" "0 \<le> ts \<and> ts \<le> 100"
    unfolding impl_token_sort_ratio_def using is_scoreE[OF token_sort_score] by blast
  obtain te where te: "impl_token_set_ratio s1 s2 = Some te" "0 \<le> te \<and> te \<le> 100"
    unfolding impl_token_set_ratio_def using is_scoreE[OF token_set_score] by blast
  define lr :: rat where
    "lr = fdiv (float_of_nat (max (length s1) (length s2)))
            (float_of_nat (min (length s1) (length s2)))"
  define ps :: rat where "ps = (if 8 < lr then fl (6 / 10) else fl (90 / 100))"
  define us :: rat where "us = fl (95 / 100)"
  have ps: "0 \<le> ps" "ps \<le> 1" using float_literal_bounds by (simp_all add: ps_def)
  have u: "0 \<le> us" "us \<le> 1" using float_literal_bounds by (simp_all add: us_def)
  have r: "(0::rat) \<le> of_int v \<and> (of_int v :: rat) \<le> 100" if "0 \<le> v \<and> v \<le> 100" for v :: int
    using that by simp
  have f: "0 \<le> float_of_int v \<and> float_of_int v \<le> 100" if "0 \<le> v \<and> v \<le> 100" for v :: int
    using that float_of_int_bounds[of v] by simp
  have m: "is_score (Some (intr (Max (set xs))))"
    if "xs \<noteq> []" "\<forall>x\<in>set xs. 0 \<le> x \<and> x \<le> 100" for xs :: "rat list"
    using Max_list_bounds[OF that] intr_bounds unfolding is_score_Some by blast
  have full: "is_score (Some (intr (Max (set [of_int base, fmul (float_of_int ts) us,
      fmul (float_of_int te) us]))))"
    using r[OF base(2)] scaled_bounds[OF f[OF ts(2)] u] scaled_bounds[OF f[OF te(2)] u]
    by (intro m) simp_all
  have part: "is_score (Some (intr (Max (set [of_int base, fmul (float_of_int pr) ps,
      fmul (fmul (float_of_int pts) us) ps, fmul (fmul (float_of_int pte) us) ps]))))"
    using r[OF base(2)] scaled_bounds[OF f[OF pr(2)] ps]
      scaled_bounds[OF scaled_bounds[OF f[OF pts(2)] u] ps]
      scaled_bounds[OF scaled_bounds[OF f[OF pte(2)] u] ps]
    by (intro m) simp_all
  have eq: "WRatio_scores s1 s2 =
      (if lr < fl (15 / 10)
       then Some (intr (Max (set [of_int base, fmul (float_of_int ts) us,
              fmul (float_of_int te) us])))
       else Some (intr (Max (set [of_int base, fmul (float_of_int pr) ps,
              fmul (fmul (float_of_int pts) us) ps, fmul (fmul (float_of_int pte) us) ps]))))"
    unfolding WRatio_scores_def Let_def base(1) pr(1) pts(1) pte(1) ts(1) te(1)
      lr_def[symmetric] ps_def us_def
    by simp
  show ?thesis unfolding eq using full part by (simp only: if_split) blast
qed

lemma check_for_none_score:
  assumes "\<And>a b. is_score (func a b)"
  shows "is_score (check_for_none func s1 s2)"
  using assms by (cases s1; cases s2) simp_all

lemma intr_wrap_score: "is_score r \<Longrightarrow> is_score (do { n \<leftarrow> r; Some (intr (of_int n)) })"
  using is_scoreE[of r] by auto

lemma impl_WRatio_score: "is_score (impl_WRatio s1 s2)"
  by (cases s1; cases s2) (simp_all add: impl_WRatio_def validate_string_def WRatio_scores_score)

lemma ratio_score: "is_score (ratio s1 s2)"
  unfolding ratio_def by (intro check_for_none_score intr_wrap_score impl_ratio_score)

lemma partial_ratio_score: "is_score (partial_ratio s1 s2)"
  unfolding partial_ratio_def
  by (intro check_for_none_score intr_wrap_score impl_partial_ratio_score)

lemma token_sort_ratio_score: "is_score (token_sort_ratio s1 s2 fa fp)"
  unfolding token_sort_ratio_def Let_def impl_token_sort_ratio_def
  by (intro check_for_none_score intr_wrap_score token_sort_score)

lemma partial_token_sort_ratio_score: "is_score (partial_token_sort_ratio s1 s2 fa fp)"
  unfolding partial_token_sort_ratio_def Let_def impl_partial_token_sort_ratio_def
  by (intro check_for_none_score intr_wrap_score token_sort_score)

lemma token_set_ratio_score: "is_score (token_set_ratio s1 s2 fa fp)"
  unfolding token_set_ratio_def Let_def impl_token_set_ratio_def
  by (intro check_for_none_score intr_wrap_score token_set_score)

lemma partial_token_set_ratio_score: "is_score (partial_token_set_ratio s1 s2 fa fp)"
  unfolding partial_token_set_ratio_def Let_def impl_partial_token_set_ratio_def
  by (intro check_for_none_score intr_wrap_score token_set_score)

lemma QRatio_score: "is_score (QRatio s1 s2 fa fp)"
  unfolding QRatio_def Let_def by (intro is_score_if ratio_score) simp_all

lemma WRatio_score: "is_score (WRatio s1 s2 fa fp)"
  unfolding WRatio_def Let_def by (intro intr_wrap_score impl_WRatio_score)

text \<open>
  Claim C9.  For every pair of inputs (\<^verbatim>\<open>None\<close> or a string) and every value of the flags, each
  public scoring function returns an integer score between 0 and 100 inclusive; in particular
  \<^verbatim>\<open>WRatio\<close> does.  No relation between \<^verbatim>\<open>WRatio\<close> and \<^verbatim>\<open>ratio\<close> is part of the statement.
\<close>

theorem scores_between_0_and_100:
  "is_score (ratio s1 s2) \<and> is_score (partial_ratio s1 s2)
   \<and> is_score (token_sort_ratio s1 s2 force_ascii do_full_process)
   \<and> is_score (partial_token_sort_ratio s1 s2 force_ascii do_full_process)
   \<and> is_score (token_set_ratio s1 s2 force_ascii do_full_process)
   \<and> is_score (partial_token_set_ratio s1 s2 force_ascii do_full_process)
   \<and> is_score (QRatio s1 s2 force_ascii do_full_process)
   \<and> is_score (UQRatio s1 s2 do_full_process)
   \<and> is_score (WRatio s1 s2 force_ascii do_full_process)
   \<and> is_score (UWRatio s1 s2 do_full_process)"
  unfolding UQRatio_def UWRatio_def
  by (intro conjI ratio_score partial_ratio_score token_sort_ratio_score
      partial_token_sort_ratio_score token_set_ratio_score partial_token_set_ratio_score
      QRatio_score WRatio_score)

theorem scores_between_0_and_100_witness:
  "is_score (WRatio (PStr ''Atlanta Falcons'') (PStr ''New York Jets'') True True)
   \<and> WRatio (PStr ''new york mets'') (PStr ''new YORK mets'') True True = Some 100
   \<and> is_score (ratio PNone (PStr ''a''))"
proof -
  have "WRatio (PStr ''new york mets'') (PStr ''new YORK mets'') True True = Some 100"
    by code_simp
  then show ?thesis
    using scores_between_0_and_100[of "PStr ''Atlanta Falcons''" "PStr ''New York Jets''" True True]
      scores_between_0_and_100[of PNone "PStr ''a''" True True]
    by blast
qed

section \<open>\<^verbatim>\<open>WRatio\<close>: the policy of the spec\<close>

text \<open>
  The policy of section 4.5 of the spec, written out: the base ratio, the length ratio, and
  then either the two token scores scaled by 0.95 (length ratio below 1.5) or the three
  partial scores scaled by \<open>partial_scale\<close>, which is 0.6 above a length ratio of 8 and 0.9
  otherwise, the token ones by 0.95 as well; the result is the rounded maximum.  The numbers
  are floats, and each product is a float product, taken in the order in which it is written.
\<close>

definition WRatio_spec :: "string \<Rightarrow> string \<Rightarrow> int option" where
  "WRatio_spec s1 s2 =
     do {
       base \<leftarrow> impl_ratio s1 s2;
       let len_ratio =
         fdiv (float_of_nat (max (length s1) (length s2)))
           (float_of_nat (min (length s1) (length s2)));
       if len_ratio < fl (15 / 10) then do {
         ts \<leftarrow> impl_token_sort_ratio s1 s2;
         te \<leftarrow> impl_token_set_ratio s1 s2;
         Some (intr (max (of_int base)
                 (max (fmul (float_of_int ts) (fl (95 / 100)))
                      (fmul (float_of_int te) (fl (95 / 100))))))
       } else do {
         let partial_scale = (if 8 < len_ratio then fl (6 / 10) else fl (9 / 10));
         pr \<leftarrow> impl_partial_ratio s1 s2;
         pts \<leftarrow> impl_partial_token_sort_ratio s1 s2;
         pte \<leftarrow> impl_partial_token_set_ratio s1 s2;
         Some (intr (max (of_int base)
                 (max (fmul (float_of_int pr) partial_scale)
                    (max (fmul (fmul (float_of_int pts) (fl (95 / 100))) partial_scale)
                         (fmul (fmul (float_of_int pte) (fl (95 / 100))) partial_scale)))))
       }
     }"

lemma WRatio_scores_spec: "WRatio_scores s1 s2 = WRatio_spec s1 s2"
proof (cases "impl_ratio s1 s2")
  case None
  then show ?thesis by (simp add: WRatio_scores_def WRatio_spec_def)
next
  case (Some base)
  then show ?thesis
    unfolding WRatio_scores_def WRatio_spec_def Let_def
    by (auto intro!: arg_cong[where f="Option.bind _"] simp: fun_eq_iff)
qed

text \<open>
  Claim C1.  For strings that are valid (non-empty) after preprocessing, \<^verbatim>\<open>WRatio\<close> computes
  \<open>base = ratio s1 s2\<close> and \<open>len_ratio = max / min\<close> of the two lengths; below 1.5 it returns
  the rounded maximum of \<open>base\<close>, \<open>token_sort_ratio * 0.95\<close> and \<open>token_set_ratio * 0.95\<close>;
  otherwise \<open>partial_scale\<close> is 0.6 when \<open>len_ratio > 8\<close> and 0.9 otherwise, and the result is the
  rounded maximum of \<open>base\<close>, \<open>partial_ratio * partial_scale\<close>,
  \<open>partial_token_sort_ratio * 0.95 * partial_scale\<close> and
  \<open>partial_token_set_ratio * 0.95 * partial_scale\<close>.  The public \<^verbatim>\<open>WRatio\<close> on preprocessed
  strings returns the same, and the value is a score.
\<close>

theorem WRatio_refines_spec:
  assumes "validate_string (PStr s1)" "validate_string (PStr s2)"
  shows "impl_WRatio (PStr s1) (PStr s2) = WRatio_spec s1 s2
         \<and> WRatio (PStr s1) (PStr s2) force_ascii False = WRatio_spec s1 s2
         \<and> is_score (WRatio_spec s1 s2)"
proof -
  have 1: "impl_WRatio (PStr s1) (PStr s2) = WRatio_spec s1 s2"
    using assms by (simp add: impl_WRatio_def WRatio_scores_spec)
  have 2: "is_score (WRatio_spec s1 s2)"
    using WRatio_scores_score[of s1 s2] by (simp add: WRatio_scores_spec)
  obtain v where v: "WRatio_spec s1 s2 = Some v" using is_scoreE[OF 2] by blast
  have 3: "WRatio (PStr s1) (PStr s2) force_ascii False = WRatio_spec s1 s2"
    by (simp add: WRatio_def 1 v)
  show ?thesis using 1 2 3 by blast
qed

theorem WRatio_refines_spec_witness:
  "validate_string (PStr ''new york mets'') \<and> validate_string (PStr ''new york mets vs atlanta braves'')
   \<and> impl_WRatio (PStr ''new york mets'') (PStr ''new york mets vs atlanta braves'')
       = WRatio_spec ''new york mets'' ''new york mets vs atlanta braves''
   \<and> WRatio_spec ''new york mets'' ''new york mets vs atlanta braves'' = Some 90"
proof -
  have v: "validate_string (PStr ''new york mets'')"
    "validate_string (PStr ''new york mets vs atlanta braves'')"
    by (simp_all add: validate_string_def)
  have e: "WRatio_spec ''new york mets'' ''new york mets vs atlanta braves'' = Some 90"
    by code_simp
  show ?thesis using WRatio_refines_spec[OF v] v e by blast
qed

section \<open>\<^verbatim>\<open>_token_set\<close>: the three strings and the three scores\<close>

text \<open>
  The description of section 4.4 of the spec, written out: the token sets of the two strings,
  \<open>sect\<close> the sorted intersection joined with spaces, the two combined strings \<open>sect\<close>, a space
  and the sorted one-sided difference, all trimmed, and the largest of the three pairwise
  scores.
\<close>

definition token_set_spec :: "string \<Rightarrow> string \<Rightarrow> bool \<Rightarrow> int option" where
  "token_set_spec s1 s2 partial =
     (let tokens1 = set (str_split s1);
          tokens2 = set (str_split s2);
          sect = str_strip (str_join '' '' (sorted_list_of_set (tokens1 \<inter> tokens2)));
          combined_1 =
            str_strip (sect @ '' '' @ str_join '' '' (sorted_list_of_set (tokens1 - tokens2)));
          combined_2 =
            str_strip (sect @ '' '' @ str_join '' '' (sorted_list_of_set (tokens2 - tokens1)));
          ratio_or_partial = (if partial then impl_partial_ratio else impl_ratio)
      in do {
           a \<leftarrow> ratio_or_partial sect combined_1;
           b \<leftarrow> ratio_or_partial sect combined_2;
           c \<leftarrow> ratio_or_partial combined_1 combined_2;
           Some (max a (max b c))
         })"

lemma str_strip_sorted_tokens:
  assumes "A \<subseteq> set (str_split s)"
  shows "str_strip (str_join sep (sorted_list_of_set A)) = str_join sep (sorted_list_of_set A)"
proof -
  have "finite A" using assms by (rule finite_subset) simp
  then have "set (sorted_list_of_set A) = A" by simp
  then show ?thesis using assms str_split_tokens by (intro str_strip_join) blast
qed

text \<open>
  Claim C8.  For non-equal, valid (non-empty) strings the token-set score is computed from the
  deduplicated whitespace token sets: \<open>sect\<close> is the sorted intersection, the two combined
  strings are \<open>sect\<close> followed by the sorted one-sided differences (all trimmed), and the result
  is the maximum of the scores of \<open>(sect, combined_1)\<close>, \<open>(sect, combined_2)\<close> and
  \<open>(combined_1, combined_2)\<close> under \<^verbatim>\<open>partial_ratio\<close> for the partial variant and \<^verbatim>\<open>ratio\<close>
  otherwise.  The code builds the combined strings from the untrimmed \<open>sect\<close>; joined tokens
  have nothing to trim, so the two agree.
\<close>

theorem token_set_refines_spec:
  assumes "s1 \<noteq> s2" "validate_string (PStr s1)" "validate_string (PStr s2)"
  shows "token_set s1 s2 partial = token_set_spec s1 s2 partial
         \<and> is_score (token_set s1 s2 partial)"
proof -
  have "str_strip (str_join '' '' (sorted_list_of_set (set (str_split s1) \<inter> set (str_split s2))))
        = str_join '' '' (sorted_list_of_set (set (str_split s1) \<inter> set (str_split s2)))"
    by (rule str_strip_sorted_tokens[of _ s1]) simp
  then have "token_set s1 s2 partial = token_set_spec s1 s2 partial"
    using assms by (simp add: token_set_def token_set_spec_def Let_def)
  then show ?thesis using token_set_score[of s1 s2 partial] by (simp only: simp_thms)
qed

theorem token_set_refines_spec_witness:
  "token_set ''a b'' ''b c'' False = token_set_spec ''a b'' ''b c'' False
   \<and> token_set_spec ''a b'' ''b c'' False = Some 67
   \<and> token_set ''a b'' ''b c'' True = token_set_spec ''a b'' ''b c'' True
   \<and> token_set_spec ''a b'' ''b c'' True = Some 100"
proof -
  have v: "validate_string (PStr ''a b'')" "validate_string (PStr ''b c'')" "''a b'' \<noteq> ''b c''"
    by (simp_all add: validate_string_def)
  have e: "token_set_spec ''a b'' ''b c'' False = Some 67"
    "token_set_spec ''a b'' ''b c'' True = Some 100"
    by code_simp+
  show ?thesis
    using token_set_refines_spec[OF v(3) v(1) v(2), of False]
      token_set_refines_spec[OF v(3) v(1) v(2), of True] e
    by blast
qed

section \<open>The longest match when one sequence lies inside the other\<close>

text \<open>
  \<open>suffix_run a b i j\<close> is the length of the longest common run of \<open>a\<close> and \<open>b\<close> that ends at
  the positions \<open>i\<close> and \<open>j\<close>.  Without popular elements the dictionary \<^verbatim>\<open>j2len\<close> holds exactly
  these lengths after row \<open>i\<close>, and the scan of the last row of \<open>a\<close> stops at the first
  position of \<open>b\<close> where the whole of \<open>a\<close> ends.
\<close>

fun suffix_run :: "'a list \<Rightarrow> 'a list \<Rightarrow> nat \<Rightarrow> nat \<Rightarrow> nat" where
  "suffix_run a b 0 j = (if a ! 0 = b ! j then 1 else 0)"
| "suffix_run a b (Suc i) j =
     (if a ! Suc i = b ! j then (case j of 0 \<Rightarrow> 1 | Suc j' \<Rightarrow> suffix_run a b i j' + 1) else 0)"

definition row :: "'a list \<Rightarrow> 'a list \<Rightarrow> nat \<Rightarrow> nat \<Rightarrow> nat" where
  "row a b i j = (if j < length b then suffix_run a b i j else 0)"

definition prev_row :: "'a list \<Rightarrow> 'a list \<Rightarrow> nat \<Rightarrow> nat \<Rightarrow> nat" where
  "prev_row a b i = (case i of 0 \<Rightarrow> (\<lambda>_. 0) | Suc i' \<Rightarrow> row a b i')"

lemma step_value:
  "j < length b \<Longrightarrow> a ! i = b ! j \<Longrightarrow>
   (if j = 0 then 0 else prev_row a b i (j - 1)) + 1 = suffix_run a b i j"
  by (cases i; cases j) (auto simp: prev_row_def row_def)

lemma suffix_run_le: "suffix_run a b i j \<le> i + 1"
proof (induction i arbitrary: j)
  case 0
  then show ?case by simp
next
  case (Suc i)
  show ?case using Suc[of "j - 1"] by (cases j) auto
qed

lemma suffix_run_zero: "a ! i \<noteq> b ! j \<Longrightarrow> suffix_run a b i j = 0"
  by (cases i) auto

lemma suffix_run_full:
  "suffix_run a b i j = i + 1 \<longleftrightarrow> i \<le> j \<and> (\<forall>t\<le>i. a ! t = b ! (j - i + t))"
proof (induction i arbitrary: j)
  case 0
  then show ?case by simp
next
  case (Suc i)
  show ?case
  proof (cases j)
    case 0
    then show ?thesis by simp
  next
    case (Suc j')
    have "(\<forall>t\<le>Suc i. a ! t = b ! (j' - i + t)) \<longleftrightarrow>
          a ! Suc i = b ! (j' - i + Suc i) \<and> (\<forall>t\<le>i. a ! t = b ! (j' - i + t))"
      using le_Suc_eq by auto
    then show ?thesis using Suc.IH[of j'] Suc by auto
  qed
qed

lemma scan_row_step:
  assumes "j < lb"
  shows "scan_row 0 lb i prev (j # js) (new, (bi, bj, bs)) =
     scan_row 0 lb i prev js
       (new(j := (if j = 0 then 0 else prev (j - 1)) + 1),
        if bs < (if j = 0 then 0 else prev (j - 1)) + 1
        then (i + 1 - ((if j = 0 then 0 else prev (j - 1)) + 1),
              j + 1 - ((if j = 0 then 0 else prev (j - 1)) + 1),
              (if j = 0 then 0 else prev (j - 1)) + 1)
        else (bi, bj, bs))"
  using assms by (simp add: Let_def)

lemma filter_upt_hit:
  "m < n \<Longrightarrow> P m \<Longrightarrow> filter P [m..<n] = m # filter P [Suc m..<n]"
  by (simp add: upt_conv_Cons)

lemma filter_upt_miss:
  "m < n \<Longrightarrow> \<not> P m \<Longrightarrow> filter P [m..<n] = filter P [Suc m..<n]"
  by (simp add: upt_conv_Cons)

lemma scan_row_fst:
  assumes "m \<le> length b"
  shows "fst (scan_row 0 (length b) i (prev_row a b i)
               (filter (\<lambda>j. b ! j = a ! i) [m..<length b])
               (\<lambda>j. if j < m then row a b i j else 0, best)) = row a b i"
  using assms
proof (induction "length b - m" arbitrary: m best)
  case 0
  then have "m = length b" by simp
  then show ?case by (auto simp: row_def fun_eq_iff)
next
  case (Suc d)
  then have lt: "m < length b" by simp
  obtain bi bj bs where best: "best = (bi, bj, bs)" by (cases best)
  let ?js = "filter (\<lambda>j. b ! j = a ! i) [Suc m..<length b]"
  let ?new = "\<lambda>j. if j < m then row a b i j else 0"
  let ?K = "(if m = 0 then 0 else prev_row a b i (m - 1)) + 1"
  have IH: "fst (scan_row 0 (length b) i (prev_row a b i) ?js
                  (\<lambda>j. if j < Suc m then row a b i j else 0, best')) = row a b i" for best'
    by (rule Suc.hyps(1)) (use Suc.hyps(2) lt in auto)
  show ?case
  proof (cases "b ! m = a ! i")
    case True
    have fl: "filter (\<lambda>j. b ! j = a ! i) [m..<length b] = m # ?js"
      using lt True by (rule filter_upt_hit)
    have k: "?K = row a b i m"
      using step_value[OF lt True[symmetric]] lt by (simp add: row_def)
    have new: "?new(m := ?K) = (\<lambda>j. if j < Suc m then row a b i j else 0)"
      unfolding k by (auto simp: fun_eq_iff less_Suc_eq)
    show ?thesis unfolding best fl scan_row_step[OF lt] new by (rule IH)
  next
    case False
    have fl: "filter (\<lambda>j. b ! j = a ! i) [m..<length b] = ?js"
      using lt False by (rule filter_upt_miss)
    have "row a b i m = 0" using False suffix_run_zero[of a i b m] by (auto simp: row_def)
    then have new: "?new = (\<lambda>j. if j < Suc m then row a b i j else 0)"
      by (auto simp: fun_eq_iff less_Suc_eq)
    show ?thesis unfolding fl new by (rule IH)
  qed
qed

lemma scan_row_keep:
  assumes "\<forall>j\<in>set js. j < lb \<and> (if j = 0 then 0 else prev (j - 1)) + 1 \<le> n"
  shows "snd (scan_row 0 lb i prev js (new, (bi, bj, n))) = (bi, bj, n)"
  using assms
proof (induction js arbitrary: new)
  case Nil
  then show ?case by simp
next
  case (Cons j js)
  let ?K = "(if j = 0 then 0 else prev (j - 1)) + 1"
  have j: "j < lb" and k: "\<not> n < ?K" using Cons.prems by auto
  have b': "(if n < ?K then (i + 1 - ?K, j + 1 - ?K, ?K) else (bi, bj, n)) = (bi, bj, n)"
    using k by (simp only: if_False)
  have rest: "\<forall>j\<in>set js. j < lb \<and> (if j = 0 then 0 else prev (j - 1)) + 1 \<le> n"
    using Cons.prems by simp
  show ?case unfolding scan_row_step[OF j] b' by (rule Cons.IH[OF rest])
qed

lemma scan_row_first_full:
  assumes "J < length b" "suffix_run a b i J = i + 1" "\<forall>j<J. suffix_run a b i j \<noteq> i + 1"
    and "m \<le> J" "bs < i + 1"
  shows "snd (scan_row 0 (length b) i (prev_row a b i)
               (filter (\<lambda>j. b ! j = a ! i) [m..<length b]) (new, (bi, bj, bs)))
         = (0, J - i, i + 1)"
  using assms(4,5)
proof (induction "J - m" arbitrary: m new bi bj bs)
  case 0
  then have mJ: "m = J" by simp
  let ?js = "filter (\<lambda>j. b ! j = a ! i) [Suc J..<length b]"
  let ?K = "(if J = 0 then 0 else prev_row a b i (J - 1)) + 1"
  have P: "b ! J = a ! i" using assms(2) suffix_run_zero[of a i b J] by fastforce
  have fl: "filter (\<lambda>j. b ! j = a ! i) [J..<length b] = J # ?js"
    using assms(1) P by (rule filter_upt_hit)
  have k: "?K = i + 1"
    using step_value[OF assms(1) P[symmetric]] assms(2) by simp
  have iJ: "i \<le> J" using assms(2) suffix_run_full[of a b i J] by simp
  have b': "(if bs < ?K then (i + 1 - ?K, J + 1 - ?K, ?K) else (bi, bj, bs)) = (0, J - i, i + 1)"
    unfolding k using "0.prems"(2) by simp
  have keep: "\<forall>j\<in>set ?js.
      j < length b \<and> (if j = 0 then 0 else prev_row a b i (j - 1)) + 1 \<le> i + 1"
  proof
    fix j assume "j \<in> set ?js"
    then have j: "j < length b" "a ! i = b ! j" by auto
    show "j < length b \<and> (if j = 0 then 0 else prev_row a b i (j - 1)) + 1 \<le> i + 1"
      using step_value[OF j] suffix_run_le[of a b i j] j(1) by simp
  qed
  show ?case unfolding mJ fl scan_row_step[OF assms(1)] b' by (rule scan_row_keep[OF keep])
next
  case (Suc d)
  then have lt: "m < J" by simp
  then have mlt: "m < length b" using assms(1) by simp
  let ?js = "filter (\<lambda>j. b ! j = a ! i) [Suc m..<length b]"
  let ?K = "(if m = 0 then 0 else prev_row a b i (m - 1)) + 1"
  have IH: "snd (scan_row 0 (length b) i (prev_row a b i) ?js (new', (bi', bj', bs')))
         = (0, J - i, i + 1)" if "bs' < i + 1" for new' bi' bj' bs'
    by (rule Suc.hyps(1)) (use Suc.hyps(2) lt that in auto)
  show ?case
  proof (cases "b ! m = a ! i")
    case True
    have fl: "filter (\<lambda>j. b ! j = a ! i) [m..<length b] = m # ?js"
      using mlt True by (rule filter_upt_hit)
    have k: "?K = suffix_run a b i m" using step_value[OF mlt True[symmetric]] .
    have "suffix_run a b i m \<noteq> i + 1" using assms(3) lt by blast
    then have klt: "?K < i + 1" using suffix_run_le[of a b i m] unfolding k by linarith
    show ?thesis
    proof (cases "bs < ?K")
      case True
      have b': "(if bs < ?K then (i + 1 - ?K, m + 1 - ?K, ?K) else (bi, bj, bs))
                = (i + 1 - ?K, m + 1 - ?K, ?K)"
        using True by (simp only: if_True)
      show ?thesis unfolding fl scan_row_step[OF mlt] b' by (rule IH[OF klt])
    next
      case False
      have b': "(if bs < ?K then (i + 1 - ?K, m + 1 - ?K, ?K) else (bi, bj, bs)) = (bi, bj, bs)"
        using False by (simp only: if_False)
      show ?thesis unfolding fl scan_row_step[OF mlt] b' by (rule IH[OF Suc.prems(2)])
    qed
  next
    case False
    have fl: "filter (\<lambda>j. b ! j = a ! i) [m..<length b] = ?js"
      using mlt False by (rule filter_upt_miss)
    show ?thesis unfolding fl by (rule IH[OF Suc.prems(2)])
  qed
qed

lemma scan_rows_append:
  "scan_rows a b2j blo bhi (xs @ ys) st = scan_rows a b2j blo bhi ys (scan_rows a b2j blo bhi xs st)"
proof (induction xs arbitrary: st)
  case Nil
  then show ?case by simp
next
  case (Cons x xs)
  obtain f best where "st = (f, best)" by (cases st)
  then show ?case using Cons by simp
qed

lemma scan_rows_fst:
  "fst (scan_rows a (indices_of b) 0 (length b) [0..<i] (\<lambda>_. 0, best0)) = prev_row a b i"
proof (induction i)
  case 0
  then show ?case by (simp add: prev_row_def)
next
  case (Suc i)
  obtain f best where st:
    "scan_rows a (indices_of b) 0 (length b) [0..<i] (\<lambda>_. 0, best0) = (f, best)"
    by (cases "scan_rows a (indices_of b) 0 (length b) [0..<i] (\<lambda>_. 0, best0)")
  with Suc have f: "f = prev_row a b i" by simp
  have "scan_rows a (indices_of b) 0 (length b) [0..<Suc i] (\<lambda>_. 0, best0)
        = scan_row 0 (length b) i (prev_row a b i)
            (filter (\<lambda>j. b ! j = a ! i) [0..<length b]) (\<lambda>j. if j < 0 then row a b i j else 0, best)"
    by (simp add: scan_rows_append st f indices_of_def)
  then show ?case using scan_row_fst[of 0 b i a best] by (simp add: prev_row_def)
qed

lemma scan_rows_snd_small:
  "region_ok 0 i 0 (length b) (snd (scan_rows a b2j 0 (length b) [0..<i] (\<lambda>_. 0, (0, 0, 0))))"
  by (rule scan_rows_bounds) (auto simp: region_ok_def)

lemma find_longest_match_substring:
  assumes "a \<noteq> []" "\<forall>x. \<not> is_popular b x"
    and "J < length b" "suffix_run a b (length a - 1) J = length a"
    and "\<forall>j<J. suffix_run a b (length a - 1) j \<noteq> length a"
  shows "find_longest_match a b 0 (length a) 0 (length b) = (0, J - (length a - 1), length a)"
proof -
  define i where "i = length a - 1"
  have n: "length a = i + 1" using assms(1) by (simp add: i_def)
  have cb: "chain_b b = indices_of b" using assms(2) by (auto simp: chain_b_def fun_eq_iff)
  obtain f bi bj bs where st:
    "scan_rows a (indices_of b) 0 (length b) [0..<i] (\<lambda>_. 0, (0, 0, 0)) = (f, (bi, bj, bs))"
    by (metis prod_cases3)
  have f: "f = prev_row a b i" using scan_rows_fst[of a b i "(0, 0, 0)"] st by simp
  have "region_ok 0 i 0 (length b) (bi, bj, bs)"
    using scan_rows_snd_small[of i b a "indices_of b"] st by simp
  then have bs: "bs < i + 1" by (auto simp: region_ok_def split: if_splits)
  have "scan_rows a (indices_of b) 0 (length b) [0..<length a] (\<lambda>_. 0, (0, 0, 0))
        = scan_row 0 (length b) i (prev_row a b i)
            (filter (\<lambda>j. b ! j = a ! i) [0..<length b]) (\<lambda>_. 0, (bi, bj, bs))"
    unfolding n by (simp add: scan_rows_append st f indices_of_def)
  then have sc: "snd (scan_rows a (indices_of b) 0 (length b) [0..<length a] (\<lambda>_. 0, (0, 0, 0)))
        = (0, J - i, i + 1)"
    using scan_row_first_full[of J b a i 0 bs "\<lambda>_. 0" bi bj] assms(3,4,5) bs
    unfolding i_def[symmetric] n by simp
  have el: "extend_left a b 0 0 (0, J - i, i + 1) = (0, J - i, i + 1)"
    by (subst extend_left.simps) simp
  have er: "extend_right a b (i + 1) (length b) (0, J - i, i + 1) = (0, J - i, i + 1)"
    by (subst extend_right.simps) simp
  show ?thesis
    unfolding find_longest_match_def cb sc el unfolding n er i_def[symmetric] by simp
qed

lemma substring_full:
  assumes "a \<noteq> []" "b = xs @ a @ ys"
  obtains J where "J < length b" "suffix_run a b (length a - 1) J = length a"
    "\<forall>j<J. suffix_run a b (length a - 1) j \<noteq> length a"
    "slice b (J - (length a - 1)) (J - (length a - 1) + length a) = a"
proof -
  define i where "i = length a - 1"
  have n: "length a = i + 1" using assms(1) by (simp add: i_def)
  let ?full = "\<lambda>j. suffix_run a b i j = i + 1"
  have "\<forall>t\<le>i. a ! t = b ! (length xs + i - i + t)"
    using n unfolding assms(2) by (simp add: nth_append)
  then have ex: "?full (length xs + i)" unfolding suffix_run_full by simp
  define J where "J = (LEAST j. ?full j)"
  have fJ: "?full J" unfolding J_def using ex by (rule LeastI)
  have "J \<le> length xs + i" unfolding J_def using ex by (rule Least_le)
  then have Jlt: "J < length b" unfolding assms(2) using n by simp
  have least: "\<forall>j<J. \<not> ?full j" unfolding J_def using not_less_Least by blast
  have iJ: "i \<le> J" and eq: "\<forall>t\<le>i. a ! t = b ! (J - i + t)"
    using fJ unfolding suffix_run_full by auto
  have "slice b (J - i) (J - i + length a) = a"
  proof (rule nth_equalityI)
    show "length (slice b (J - i) (J - i + length a)) = length a"
      using Jlt iJ n by (simp add: slice_def)
    fix t assume "t < length (slice b (J - i) (J - i + length a))"
    then have t: "t \<le> i" using Jlt iJ n by (simp add: slice_def)
    then show "slice b (J - i) (J - i + length a) ! t = a ! t"
      using eq Jlt iJ n by (simp add: slice_def)
  qed
  then show ?thesis using that[of J] Jlt fJ least unfolding i_def[symmetric] n by simp
qed

section \<open>\<^verbatim>\<open>partial_ratio\<close> of a substring\<close>

lemma get_matching_blocks_substring:
  assumes "a \<noteq> []" "b = xs @ a @ ys" "length b < 200"
  obtains q where "get_matching_blocks a b = [(0, q, length a), (length a, length b, 0)]"
    "slice b q (q + length a) = a"
proof -
  obtain J where J: "J < length b" "suffix_run a b (length a - 1) J = length a"
    "\<forall>j<J. suffix_run a b (length a - 1) j \<noteq> length a"
    "slice b (J - (length a - 1)) (J - (length a - 1) + length a) = a"
    using substring_full[OF assms(1,2)] by blast
  define q where "q = J - (length a - 1)"
  have np: "\<forall>x. \<not> is_popular b x" using assms(3) by (simp add: is_popular_def)
  have flm: "find_longest_match a b 0 (length a) 0 (length b) = (0, q, length a)"
    unfolding q_def by (rule find_longest_match_substring[OF assms(1) np J(1,2,3)])
  have bl: "blocks_loop a b [(0, length a, 0, length b)] [] = [(0, q, length a)]"
    using assms(1) by (simp add: flm)
  have co: "collapse [(0, q, length a)] (0, 0, 0) [] = [(0, q, length a)]"
    using assms(1) by simp
  have so: "sort [(0, q, length a)] = [(0, q, length a)]" by simp
  have "get_matching_blocks a b = [(0, q, length a), (length a, length b, 0)]"
    unfolding get_matching_blocks_def Let_def bl so co by simp
  then show ?thesis using that[of q] J(4) unfolding q_def by simp
qed

lemma sm_ratio_self:
  assumes "a \<noteq> []" "length a < 200"
  shows "sm_ratio a a = 1"
proof -
  obtain q where "get_matching_blocks a a = [(0, q, length a), (length a, length a, 0)]"
    using get_matching_blocks_substring[of a a "[]" "[]"] assms by auto
  then have "sm_ratio a a = fdiv (fmul 2 (float_of_nat (length a))) (float_of_nat (length a + length a))"
    using assms(1) by (simp add: sm_ratio_def Let_def)
  then show ?thesis using float_ratio_one[of "length a"] assms(1) by simp
qed

lemma partial_loop_substring:
  assumes "shorter \<noteq> []" "longer = xs @ shorter @ ys" "length longer < 200"
  shows "partial_loop shorter longer (get_matching_blocks shorter longer) [] = Some 100"
proof -
  obtain q where q: "get_matching_blocks shorter longer
      = [(0, q, length shorter), (length shorter, length longer, 0)]"
    "slice longer q (q + length shorter) = shorter"
    using get_matching_blocks_substring[OF assms] by blast
  have "length shorter < 200" using assms(2,3) by simp
  then have r: "sm_ratio shorter shorter = 1" using assms(1) by (rule sm_ratio_self[rotated])
  have w: "candidate_window shorter longer (0, q, length shorter) = shorter"
    using q(2) by (simp add: candidate_window_def Let_def)
  show ?thesis unfolding q(1) partial_loop_spec using threshold_below_one by (simp add: Let_def w r)
qed

text \<open>
  Below 200 characters no element of the longer string is popular, the first block covers the
  whole of the shorter string, and \<^verbatim>\<open>partial_ratio\<close> returns 100, whichever of the two strings
  comes first.
\<close>

lemma partial_ratio_substring:
  assumes "shorter \<noteq> []" "longer = xs @ shorter @ ys" "length longer < 200"
  shows "impl_partial_ratio shorter longer = Some 100
         \<and> impl_partial_ratio longer shorter = Some 100"
proof (cases "shorter = longer")
  case True
  then show ?thesis by (simp add: impl_partial_ratio_same)
next
  case False
  then have lt: "length shorter < length longer" using assms(2) by (cases xs; cases ys) auto
  have ne: "longer \<noteq> []" using assms(1,2) by simp
  have 1: "impl_partial_ratio shorter longer
           = partial_loop shorter longer (get_matching_blocks shorter longer) []"
    using impl_partial_ratio_body[OF assms(1) ne False] lt by simp
  have 2: "impl_partial_ratio longer shorter
           = partial_loop shorter longer (get_matching_blocks shorter longer) []"
    using impl_partial_ratio_body[OF ne assms(1) False[symmetric]] lt by simp
  show ?thesis unfolding 1 2 using partial_loop_substring[OF assms] by simp
qed

text \<open>
  Claim C7.  \<^verbatim>\<open>partial_ratio\<close> is to return 100 whenever the shorter string occurs inside the
  longer one: its docstring promises the ratio of the most similar substring, and its comment
  says that the best partial match aligns with one of the blocks.  The matcher is built with
  \<^verbatim>\<open>autojunk\<close> left at its default, so from 200 characters on the aligner drops the popular
  characters of its second sequence from the index.  In \<^verbatim>\<open>"ab" * 100\<close> both characters are
  popular: no block is found for \<^verbatim>\<open>"ba"\<close>, which occurs at position 1, only the terminating
  block is scored, against the window \<^verbatim>\<open>"ab"\<close>, and the result is 50.
\<close>

theorem partial_ratio_misses_substring:
  "concat (replicate 100 ''ab'') = ''a'' @ ''ba'' @ CHR ''b'' # concat (replicate 98 ''ab'')
   \<and> length (concat (replicate 100 ''ab'')) = 200
   \<and> impl_partial_ratio ''ba'' (concat (replicate 100 ''ab'')) = Some 50"
proof -
  have 1: "concat (replicate 100 ''ab'') = ''a'' @ ''ba'' @ CHR ''b'' # concat (replicate 98 ''ab'')"
    by code_simp
  have 2: "length (concat (replicate 100 ''ab'')) = 200"
    by code_simp
  have 3: "impl_partial_ratio ''ba'' (concat (replicate 100 ''ab'')) = Some 50"
    by code_simp
  show ?thesis using 1 2 3 by (intro conjI)
qed

section \<open>The order of the arguments of \<^verbatim>\<open>ratio\<close>\<close>

text \<open>
  \<^verbatim>\<open>ratio\<close> depends on the order of its arguments only through the number of characters that
  the aligner matches.
\<close>

lemma block_sizes_get_matching_blocks:
  "block_sizes (get_matching_blocks a b)
   = block_sizes (blocks_loop a b [(0, length a, 0, length b)] [])"
  by (simp add: get_matching_blocks_def Let_def block_sizes_collapse block_sizes_sort)

lemma sm_ratio_sym:
  assumes "block_sizes (get_matching_blocks a b) = block_sizes (get_matching_blocks b a)"
  shows "sm_ratio a b = sm_ratio b a"
  using assms by (simp add: sm_ratio_def Let_def block_sizes_def add.commute)

lemma impl_ratio_sym:
  assumes "block_sizes (get_matching_blocks s1 s2) = block_sizes (get_matching_blocks s2 s1)"
  shows "impl_ratio s1 s2 = impl_ratio s2 s1"
  using sm_ratio_sym[OF assms]
  by (auto simp: impl_ratio_def check_for_equivalence_def check_empty_string_def
      make_type_consistent_def)

text \<open>
  Two strings without a common character: no row of the scan has a position to visit, the
  longest match is empty, and no block is reported in either order.
\<close>

lemma chain_b_absent: "x \<notin> set b \<Longrightarrow> chain_b b x = []"
  by (auto simp: chain_b_def indices_of_def filter_empty_conv)

lemma scan_rows_no_hits:
  "\<forall>i\<in>set rows. b2j (a ! i) = [] \<Longrightarrow> snd (scan_rows a b2j blo bhi rows (f, best)) = best"
  by (induction rows arbitrary: f) simp_all

lemma find_longest_match_disjoint:
  assumes "set a \<inter> set b = {}" "ahi \<le> length a" "bhi \<le> length b"
  shows "find_longest_match a b alo ahi blo bhi = (alo, blo, 0)"
proof -
  have "\<forall>i\<in>set [alo..<ahi]. chain_b b (a ! i) = []"
  proof
    fix i assume "i \<in> set [alo..<ahi]"
    then have "a ! i \<in> set a" using assms(2) by simp
    then show "chain_b b (a ! i) = []" using assms(1) by (intro chain_b_absent) blast
  qed
  then have sc: "snd (scan_rows a (chain_b b) blo bhi [alo..<ahi] (\<lambda>_. 0, (alo, blo, 0)))
                 = (alo, blo, 0)"
    by (rule scan_rows_no_hits)
  have el: "extend_left a b alo blo (alo, blo, 0) = (alo, blo, 0)"
    by (subst extend_left.simps) simp
  have "a ! alo \<noteq> b ! blo" if "alo < ahi" "blo < bhi"
  proof -
    have "a ! alo \<in> set a" "b ! blo \<in> set b" using that assms(2,3) by simp_all
    then show ?thesis using assms(1) by auto
  qed
  then have er: "extend_right a b ahi bhi (alo, blo, 0) = (alo, blo, 0)"
    by (subst extend_right.simps) auto
  show ?thesis unfolding find_longest_match_def sc el er ..
qed

lemma block_sizes_disjoint:
  assumes "set a \<inter> set b = {}"
  shows "block_sizes (get_matching_blocks a b) = 0"
  unfolding block_sizes_get_matching_blocks
  using find_longest_match_disjoint[OF assms, of "length a" "length b" 0 0] by simp

text \<open>
  One string inside the other, the longer one first: the best length only grows during the
  scan and the two extensions, the row where the occurrence ends reaches the length of the
  shorter string, and a match cannot be longer than the second sequence.  So the first block
  covers the shorter string and nothing is left on either side of it.
\<close>

lemma suffix_run_ge:
  "k \<le> i \<Longrightarrow> k \<le> j \<Longrightarrow> (\<forall>t\<le>k. a ! (i - t) = b ! (j - t)) \<Longrightarrow> k + 1 \<le> suffix_run a b i j"
proof (induction k arbitrary: i j)
  case 0
  then show ?case by (cases i) (auto split: nat.split)
next
  case (Suc k)
  obtain i' j' where ij: "i = Suc i'" "j = Suc j'"
    using Suc.prems(1,2) by (cases i; cases j) auto
  have e0: "a ! Suc i' = b ! Suc j'" using Suc.prems(3)[rule_format, of 0] ij by simp
  have "\<forall>t\<le>k. a ! (i' - t) = b ! (j' - t)"
  proof (intro allI impI)
    fix t assume "t \<le> k"
    then show "a ! (i' - t) = b ! (j' - t)"
      using Suc.prems(3)[rule_format, of "Suc t"] ij by simp
  qed
  then have "k + 1 \<le> suffix_run a b i' j'"
    using Suc.prems(1,2) ij by (intro Suc.IH) auto
  then show ?case using e0 ij by simp
qed

definition match_size :: "match \<Rightarrow> nat" where
  "match_size m = (case m of (i, j, k) \<Rightarrow> k)"

lemma match_size_simp [simp]: "match_size (i, j, k) = k"
  by (simp add: match_size_def)

lemma scan_row_size_mono:
  "match_size best \<le> match_size (snd (scan_row blo bhi i prev js (new, best)))"
proof (induction js arbitrary: new best)
  case Nil
  then show ?case by simp
next
  case (Cons j js)
  obtain bi bj bs where best: "best = (bi, bj, bs)" by (cases best)
  let ?K = "(if j = 0 then 0 else prev (j - 1)) + 1"
  show ?case
  proof (cases "j < blo")
    case True
    then show ?thesis using Cons.IH[where new=new and best=best] by (simp add: best)
  next
    case False
    show ?thesis
    proof (cases "bhi \<le> j")
      case True
      then show ?thesis using False by (simp add: best)
    next
      case hi: False
      let ?b = "if bs < ?K then (i + 1 - ?K, j + 1 - ?K, ?K) else (bi, bj, bs)"
      have step: "scan_row blo bhi i prev (j # js) (new, (bi, bj, bs))
                  = scan_row blo bhi i prev js (new(j := ?K), ?b)"
        using False hi by (simp add: Let_def)
      have "bs \<le> match_size ?b" by simp
      also have "\<dots> \<le> match_size (snd (scan_row blo bhi i prev js (new(j := ?K), ?b)))"
        by (rule Cons.IH)
      finally have "bs \<le> match_size (snd (scan_row blo bhi i prev js (new(j := ?K), ?b)))" .
      then show ?thesis unfolding best step by (simp only: match_size_simp)
    qed
  qed
qed

lemma scan_row_size_hit:
  assumes "j \<in> set js" "\<forall>j'\<in>set js. j' < lb"
  shows "(if j = 0 then 0 else prev (j - 1)) + 1
         \<le> match_size (snd (scan_row 0 lb i prev js (new, best)))"
  using assms
proof (induction js arbitrary: new best)
  case Nil
  then show ?case by simp
next
  case (Cons x js)
  obtain bi bj bs where best: "best = (bi, bj, bs)" by (cases best)
  let ?K = "(if x = 0 then 0 else prev (x - 1)) + 1"
  let ?b = "if bs < ?K then (i + 1 - ?K, x + 1 - ?K, ?K) else (bi, bj, bs)"
  have x: "x < lb" using Cons.prems(2) by simp
  have step: "scan_row 0 lb i prev (x # js) (new, best)
              = scan_row 0 lb i prev js (new(x := ?K), ?b)"
    unfolding best by (rule scan_row_step[OF x])
  show ?case
  proof (cases "j = x")
    case True
    have "?K \<le> match_size ?b" by simp
    also have "\<dots> \<le> match_size (snd (scan_row 0 lb i prev js (new(x := ?K), ?b)))"
      by (rule scan_row_size_mono)
    finally show ?thesis unfolding step True .
  next
    case False
    then have "j \<in> set js" using Cons.prems(1) by simp
    then show ?thesis unfolding step using Cons.prems(2) by (intro Cons.IH) simp_all
  qed
qed

lemma scan_rows_size_mono:
  "match_size best \<le> match_size (snd (scan_rows a b2j blo bhi rows (f, best)))"
proof (induction rows arbitrary: f best)
  case Nil
  then show ?case by simp
next
  case (Cons r rows)
  obtain f' best' where st: "scan_row blo bhi r f (b2j (a ! r)) (\<lambda>_. 0, best) = (f', best')"
    by (cases "scan_row blo bhi r f (b2j (a ! r)) (\<lambda>_. 0, best)")
  have "match_size best \<le> match_size best'"
    using scan_row_size_mono[of best blo bhi r f "b2j (a ! r)" "\<lambda>_. 0"] st by simp
  also have "\<dots> \<le> match_size (snd (scan_rows a b2j blo bhi rows (f', best')))"
    by (rule Cons.IH)
  finally show ?case by (simp add: st)
qed

lemma extend_left_size_mono: "match_size m \<le> match_size (extend_left a b alo blo m)"
proof (induction a b alo blo m rule: extend_left.induct)
  case (1 a b alo blo besti bestj bestsize)
  show ?case
  proof (cases "alo < besti \<and> blo < bestj \<and> a ! (besti - 1) = b ! (bestj - 1)")
    case True
    then show ?thesis using 1 by (subst extend_left.simps) simp
  next
    case False
    then show ?thesis by (subst extend_left.simps) auto
  qed
qed

lemma extend_right_size_mono: "match_size m \<le> match_size (extend_right a b ahi bhi m)"
proof (induction a b ahi bhi m rule: extend_right.induct)
  case (1 a b ahi bhi besti bestj bestsize)
  show ?case
  proof (cases "besti + bestsize < ahi \<and> bestj + bestsize < bhi
         \<and> a ! (besti + bestsize) = b ! (bestj + bestsize)")
    case True
    then show ?thesis using 1 by (subst extend_right.simps) simp
  next
    case False
    then show ?thesis by (subst extend_right.simps) auto
  qed
qed

lemma find_longest_match_covers:
  assumes "b \<noteq> []" "\<forall>x. \<not> is_popular b x" "a = xs @ b @ ys"
  obtains i where "find_longest_match a b 0 (length a) 0 (length b) = (i, 0, length b)"
proof -
  define I where "I = length xs + (length b - 1)"
  define J where "J = length b - 1"
  have J: "J < length b" "length b = J + 1" using assms(1) by (simp_all add: J_def)
  have IJ: "I = length xs + J" by (simp add: I_def J_def)
  have I: "I < length a" "J \<le> I" unfolding IJ assms(3) using J(1) by simp_all
  have cb: "chain_b b = indices_of b" using assms(2) by (auto simp: chain_b_def fun_eq_iff)
  have eq: "\<forall>t\<le>J. a ! (I - t) = b ! (J - t)"
  proof (intro allI impI)
    fix t assume "t \<le> J"
    moreover have "I = length xs + J" by (simp add: I_def J_def)
    ultimately have "I - t = length xs + (J - t)" "J - t < length b"
      using J(1) by simp_all
    then show "a ! (I - t) = b ! (J - t)" unfolding assms(3) by (simp add: nth_append)
  qed
  have run: "length b \<le> suffix_run a b I J"
    using suffix_run_ge[OF I(2) order_refl eq] J(2) by simp
  have hit: "b ! J = a ! I" using eq[rule_format, of 0] by simp
  obtain f best where st:
    "scan_rows a (indices_of b) 0 (length b) [0..<I] (\<lambda>_. 0, (0, 0, 0)) = (f, best)"
    by (cases "scan_rows a (indices_of b) 0 (length b) [0..<I] (\<lambda>_. 0, (0, 0, 0))")
  have f: "f = prev_row a b I" using scan_rows_fst[of a b I "(0, 0, 0)"] st by simp
  let ?js = "filter (\<lambda>j. b ! j = a ! I) [0..<length b]"
  obtain f' best' where row: "scan_row 0 (length b) I (prev_row a b I) ?js (\<lambda>_. 0, best) = (f', best')"
    by (cases "scan_row 0 (length b) I (prev_row a b I) ?js (\<lambda>_. 0, best)")
  have mem: "J \<in> set ?js" using J(1) hit by simp
  have all: "\<forall>j'\<in>set ?js. j' < length b" by simp
  have kv: "(if J = 0 then 0 else prev_row a b I (J - 1)) + 1 = suffix_run a b I J"
    by (rule step_value[OF J(1) hit[symmetric]])
  have "suffix_run a b I J
        \<le> match_size (snd (scan_row 0 (length b) I (prev_row a b I) ?js (\<lambda>_. 0, best)))"
    unfolding kv[symmetric] by (rule scan_row_size_hit[OF mem all])
  then have "suffix_run a b I J \<le> match_size best'" unfolding row by simp
  with run have b': "length b \<le> match_size best'" by (rule order_trans)
  have "[0..<length a] = [0..<I] @ [I..<length a]"
    using upt_add_eq_append[of 0 I "length a - I"] I(1) by simp
  moreover have "[I..<length a] = I # [Suc I..<length a]" using I(1) by (rule upt_conv_Cons)
  ultimately have split: "[0..<length a] = [0..<I] @ I # [Suc I..<length a]" by simp
  let ?S = "snd (scan_rows a (indices_of b) 0 (length b) [0..<length a] (\<lambda>_. 0, (0, 0, 0)))"
  have "scan_rows a (indices_of b) 0 (length b) [0..<length a] (\<lambda>_. 0, (0, 0, 0))
        = scan_rows a (indices_of b) 0 (length b) [Suc I..<length a] (f', best')"
    unfolding split scan_rows_append st by (simp add: f indices_of_def row)
  then have S: "?S = snd (scan_rows a (indices_of b) 0 (length b) [Suc I..<length a] (f', best'))"
    by simp
  have "match_size best' \<le> match_size ?S" unfolding S by (rule scan_rows_size_mono)
  with b' have "length b \<le> match_size ?S" by (rule order_trans)
  also have "\<dots> \<le> match_size (extend_left a b 0 0 ?S)" by (rule extend_left_size_mono)
  also have "\<dots> \<le> match_size (extend_right a b (length a) (length b) (extend_left a b 0 0 ?S))"
    by (rule extend_right_size_mono)
  finally have "length b \<le> match_size (find_longest_match a b 0 (length a) 0 (length b))"
    unfolding find_longest_match_def cb .
  obtain i j k where flm: "find_longest_match a b 0 (length a) 0 (length b) = (i, j, k)"
    by (cases "find_longest_match a b 0 (length a) 0 (length b)")
  from \<open>length b \<le> match_size (find_longest_match a b 0 (length a) 0 (length b))\<close>
  have k: "length b \<le> k" by (simp add: flm)
  have "region_ok 0 (length a) 0 (length b) (i, j, k)"
    using find_longest_match_bounds[of 0 "length a" 0 "length b" a b] flm by simp
  then have "j = 0" "k = length b" using k assms(1) by (auto simp: region_ok_def split: if_splits)
  then show ?thesis using that flm by simp
qed

lemma block_sizes_covers:
  assumes "b \<noteq> []" "length b < 200" "a = xs @ b @ ys"
  shows "block_sizes (get_matching_blocks a b) = length b"
proof -
  have np: "\<forall>x. \<not> is_popular b x" using assms(2) by (simp add: is_popular_def)
  obtain i where flm: "find_longest_match a b 0 (length a) 0 (length b) = (i, 0, length b)"
    using find_longest_match_covers[OF assms(1) np assms(3)] by blast
  show ?thesis unfolding block_sizes_get_matching_blocks using assms(1) by (simp add: flm)
qed

lemma block_sizes_inside:
  assumes "a \<noteq> []" "b = xs @ a @ ys" "length b < 200"
  shows "block_sizes (get_matching_blocks a b) = length a"
proof -
  obtain q where "get_matching_blocks a b = [(0, q, length a), (length a, length b, 0)]"
    using get_matching_blocks_substring[OF assms] by blast
  then show ?thesis by simp
qed

lemma impl_ratio_substring_sym:
  assumes "s2 = xs @ s1 @ ys" "length s2 < 200"
  shows "impl_ratio s1 s2 = impl_ratio s2 s1"
proof (cases "s1 = []")
  case True
  then show ?thesis
    using impl_ratio_empty[of s1 s2] impl_ratio_empty[of s2 s1] by (cases "s1 = s2") auto
next
  case False
  have "length s1 < 200" using assms by simp
  then show ?thesis
    using block_sizes_inside[OF False assms] block_sizes_covers[OF False _ assms(1)]
    by (intro impl_ratio_sym) simp
qed

text \<open>
  Claim C6 says that \<^verbatim>\<open>ratio(s1, s2)\<close> equals \<^verbatim>\<open>ratio(s2, s1)\<close> for all strings.  The aligner
  takes the earliest longest block of its first argument, and the blocks it finds depend on the
  order of the arguments: \<^verbatim>\<open>ratio("tide", "diet")\<close> is 25 and \<^verbatim>\<open>ratio("diet", "tide")\<close> is 50.
\<close>

theorem ratio_not_symmetric:
  "impl_ratio ''tide'' ''diet'' = Some 25 \<and> impl_ratio ''diet'' ''tide'' = Some 50
   \<and> impl_ratio ''tide'' ''diet'' \<noteq> impl_ratio ''diet'' ''tide''"
proof -
  have 1: "impl_ratio ''tide'' ''diet'' = Some 25"
    by code_simp
  have 2: "impl_ratio ''diet'' ''tide'' = Some 50"
    by code_simp
  show ?thesis unfolding 1 2 by simp
qed

text \<open>
  Claim C6, amended.  \<^verbatim>\<open>ratio(s1, s2)\<close> equals \<^verbatim>\<open>ratio(s2, s1)\<close> whenever the two strings are
  equal, or one of them is empty, or they have no character in common, or one of them occurs
  as a contiguous substring of the other and both have fewer than 200 characters.  For other
  pairs the two scores may differ.
\<close>

theorem ratio_symmetric_cases:
  assumes "s1 = s2 \<or> s1 = [] \<or> s2 = [] \<or> set s1 \<inter> set s2 = {}
           \<or> (\<exists>xs ys. (s2 = xs @ s1 @ ys \<or> s1 = xs @ s2 @ ys)
                        \<and> length s1 < 200 \<and> length s2 < 200)"
  shows "impl_ratio s1 s2 = impl_ratio s2 s1"
proof -
  consider "s1 = s2" | "s1 \<noteq> s2" "s1 = [] \<or> s2 = []" | "set s1 \<inter> set s2 = {}"
    | xs ys where "s2 = xs @ s1 @ ys" "length s2 < 200"
    | xs ys where "s1 = xs @ s2 @ ys" "length s1 < 200"
    using assms by blast
  then show ?thesis
  proof cases
    case 1
    then show ?thesis by simp
  next
    case 2
    then show ?thesis using impl_ratio_empty[of s1 s2] impl_ratio_empty[of s2 s1] by auto
  next
    case 3
    then have "set s2 \<inter> set s1 = {}" by blast
    then show ?thesis using 3 by (intro impl_ratio_sym) (simp add: block_sizes_disjoint)
  next
    case 4
    then show ?thesis by (rule impl_ratio_substring_sym)
  next
    case 5
    then show ?thesis using impl_ratio_substring_sym[of s1 xs s2 ys] by simp
  qed
qed

theorem ratio_symmetric_cases_witness:
  "impl_ratio ''abc'' ''xabcy'' = impl_ratio ''xabcy'' ''abc''
   \<and> impl_ratio ''abc'' ''xabcy'' = Some 75
   \<and> impl_ratio ''abc'' ''xyz'' = impl_ratio ''xyz'' ''abc''"
proof -
  have "\<exists>xs ys. (''xabcy'' = xs @ ''abc'' @ ys \<or> ''abc'' = xs @ ''xabcy'' @ ys)
           \<and> length ''abc'' < 200 \<and> length ''xabcy'' < 200"
    by (rule exI[of _ "''x''"], rule exI[of _ "''y''"]) simp
  then have 1: "impl_ratio ''abc'' ''xabcy'' = impl_ratio ''xabcy'' ''abc''"
    using ratio_symmetric_cases[of "''abc''" "''xabcy''"] by blast
  have 2: "impl_ratio ''abc'' ''xabcy'' = Some 75" by code_simp
  have 3: "impl_ratio ''abc'' ''xyz'' = impl_ratio ''xyz'' ''abc''"
    using ratio_symmetric_cases[of "''abc''" "''xyz''"] by simp
  show ?thesis using 1 2 3 by (intro conjI)
qed

end
